theory Spec2Isabelle
  imports Complex_Main
begin

section \<open>The triangle picker of entrada.js\<close>

text \<open>
  The development embeds the numeric core of \<^verbatim>\<open>src/entrada.js\<close>: the geometry kernel
  (\<^verbatim>\<open>area\<close>, \<^verbatim>\<open>barycentric\<close>, \<^verbatim>\<open>inside\<close>, \<^verbatim>\<open>norm3p\<close>, \<^verbatim>\<open>clamp01p\<close>,
  \<^verbatim>\<open>baryToRGB\<close>, \<^verbatim>\<open>rgbToBary\<close>), the vertex locator \<^verbatim>\<open>detectVerticesByAlpha\<close> and the
  weight state of \<^verbatim>\<open>initEntrada\<close> (\<^verbatim>\<open>setPerc\<close>, \<^verbatim>\<open>rebalance\<close>, \<^verbatim>\<open>handlePoint\<close>,
  \<^verbatim>\<open>getRGB\<close>).

  JavaScript numbers are IEEE doubles. Here a finite number is a \<^typ>\<open>real\<close>: the
  rounding of binary floating point is not modelled, so every equation below is one of
  exact arithmetic. The evaluations at given inputs use numbers that doubles compute
  without error or far from any threshold; the general statements are about values that
  the source assigns without arithmetic (the focus channel), or leave a margin above the
  rounding of doubles (the repeated edit). The places where the source divides by a
  number that can be zero are written out: HOL's \<open>x / 0 = 0\<close> is never relied on.
\<close>

subsection \<open>Geometry kernel\<close>

text \<open>A point \<^verbatim>\<open>{x, y}\<close>.\<close>

record point =
  xc :: real
  yc :: real

text \<open>\<^verbatim>\<open>const area=(ax,ay,bx,by,cx,cy)=>(bx-ax)*(cy-ay)-(cx-ax)*(by-ay);\<close>\<close>

definition area :: "real \<Rightarrow> real \<Rightarrow> real \<Rightarrow> real \<Rightarrow> real \<Rightarrow> real \<Rightarrow> real" where
  "area ax ay bx byy cx cy = (bx - ax) * (cy - ay) - (cx - ax) * (byy - ay)"

text \<open>
  \<^verbatim>\<open>barycentric(px,py,A,B,C)\<close> divides by \<open>d = area(A,B,C)\<close>. For \<open>d = 0\<close> the
  JavaScript quotients are \<open>NaN\<close> or \<open>\<plusminus>Infinity\<close>, which are no real numbers: the model
  returns \<open>None\<close> there.
\<close>

definition barycentric ::
  "real \<Rightarrow> real \<Rightarrow> point \<Rightarrow> point \<Rightarrow> point \<Rightarrow> (real \<times> real \<times> real) option" where
  "barycentric px py A B C =
     (let d = area (xc A) (yc A) (xc B) (yc B) (xc C) (yc C) in
      if d = 0 then None
      else
        let w1 = area px py (xc B) (yc B) (xc C) (yc C) / d;
            w2 = area px py (xc C) (yc C) (xc A) (yc A) / d;
            w3 = 1 - w1 - w2
        in Some (w1, w2, w3))"

text \<open>\<^verbatim>\<open>const inside=(w,t=1e-6)=>w[0]>=t&&w[1]>=t&&w[2]>=t;\<close>\<close>

definition inside :: "real \<times> real \<times> real \<Rightarrow> real \<Rightarrow> bool" where
  "inside w t = (case w of (w0, w1, w2) \<Rightarrow> w0 \<ge> t \<and> w1 \<ge> t \<and> w2 \<ge> t)"

text \<open>The call \<^verbatim>\<open>inside(wts)\<close>, with the default \<^verbatim>\<open>t=1e-6\<close>.\<close>

definition inside_default :: "real \<times> real \<times> real \<Rightarrow> bool" where
  "inside_default w = inside w (1 / 10 ^ 6)"

text \<open>
  \<^verbatim>\<open>const norm3p=(r,g,b)=>{const s=Math.max(r+g+b,1e-12);return [r/s*100,g/s*100,b/s*100];};\<close>
  The divisor is at least \<open>1e-12\<close>, so it is never zero.
\<close>

definition norm3p :: "real \<Rightarrow> real \<Rightarrow> real \<Rightarrow> real \<times> real \<times> real" where
  "norm3p r g b =
     (let s = max (r + g + b) (1 / 10 ^ 12) in (r / s * 100, g / s * 100, b / s * 100))"

text \<open>\<^verbatim>\<open>const clamp01p=v=>Math.max(0,Math.min(100,v));\<close>\<close>

definition clamp01p :: "real \<Rightarrow> real" where
  "clamp01p v = max 0 (min 100 v)"

text \<open>The channel labels \<^verbatim>\<open>'R'\<close>, \<^verbatim>\<open>'G'\<close>, \<^verbatim>\<open>'B'\<close>.\<close>

datatype channel = ChR | ChG | ChB

text \<open>
  \<^verbatim>\<open>vertexToChannel\<close> is an array of three labels, for the vertices top, left, right;
  the default is \<^verbatim>\<open>['B','R','G']\<close>.
\<close>

type_synonym channel_map = "channel \<times> channel \<times> channel"

definition vertexToChannel :: channel_map where
  "vertexToChannel = (ChB, ChR, ChG)"

text \<open>The assignment \<^verbatim>\<open>out[idx[lab]]=v\<close> with \<^verbatim>\<open>idx={'R':0,'G':1,'B':2}\<close>.\<close>

fun set_out :: "channel \<Rightarrow> real \<Rightarrow> real \<times> real \<times> real \<Rightarrow> real \<times> real \<times> real" where
  "set_out ChR v (o0, o1, o2) = (v, o1, o2)"
| "set_out ChG v (o0, o1, o2) = (o0, v, o2)"
| "set_out ChB v (o0, o1, o2) = (o0, o1, v)"

text \<open>
  \<^verbatim>\<open>baryToRGB([wt,wl,wr], map)\<close>: \<^verbatim>\<open>forEach\<close> writes the three weights in the order
  of the map, then the triple is divided by \<^verbatim>\<open>Math.max(out[0]+out[1]+out[2],1e-12)\<close>.
\<close>

definition baryToRGB :: "real \<times> real \<times> real \<Rightarrow> channel_map \<Rightarrow> real \<times> real \<times> real" where
  "baryToRGB w m =
     (case w of (wt, wl, wr) \<Rightarrow> case m of (m0, m1, m2) \<Rightarrow>
        (case set_out m2 wr (set_out m1 wl (set_out m0 wt (0, 0, 0))) of
           (o0, o1, o2) \<Rightarrow>
             let s = max (o0 + o1 + o2) (1 / 10 ^ 12) in (o0 / s, o1 / s, o2 / s)))"

text \<open>\<^verbatim>\<open>rgbToBary([r,g,b], map)\<close> reads \<^verbatim>\<open>val={'R':r,'G':g,'B':b}\<close> at the three labels.\<close>

fun val_of :: "'a \<times> 'a \<times> 'a \<Rightarrow> channel \<Rightarrow> 'a" where
  "val_of (r, g, b) ChR = r"
| "val_of (r, g, b) ChG = g"
| "val_of (r, g, b) ChB = b"

definition rgbToBary :: "real \<times> real \<times> real \<Rightarrow> channel_map \<Rightarrow> real \<times> real \<times> real" where
  "rgbToBary rgb m = (case m of (m0, m1, m2) \<Rightarrow> (val_of rgb m0, val_of rgb m1, val_of rgb m2))"

subsection \<open>Weight state\<close>

text \<open>
  The state that \<^verbatim>\<open>initEntrada\<close> closes over: the three input fields and the array
  \<^verbatim>\<open>rgb\<close>. A field is kept as the number that \<^verbatim>\<open>parseFloat(el.value)||0\<close> reads from
  its text (text that does not parse reads as 0).
\<close>

record state =
  rEl :: real
  gEl :: real
  bEl :: real
  rgb :: "real \<times> real \<times> real"

text \<open>
  The number read back from \<^verbatim>\<open>v.toFixed(2)\<close>. \<^verbatim>\<open>toFixed\<close> prints the sign and then
  the integer \<open>n\<close> with \<open>n / 100\<close> nearest to \<open>|v|\<close>, the larger \<open>n\<close> at a tie; from
  \<open>1e21\<close> on it prints the number itself.
\<close>

definition toFixed2 :: "real \<Rightarrow> real" where
  "toFixed2 v =
     (if \<bar>v\<bar> \<ge> 10 ^ 21 then v
      else if v < 0 then - (of_int \<lfloor>- v * 100 + 1 / 2\<rfloor> / 100)
      else of_int \<lfloor>v * 100 + 1 / 2\<rfloor> / 100)"

text \<open>
  \<^verbatim>\<open>setPerc(r,g,b)\<close> writes the three fields and \<^verbatim>\<open>rgb=[r/100,g/100,b/100]\<close>; the
  redraw changes no state.
\<close>

definition setPerc :: "real \<Rightarrow> real \<Rightarrow> real \<Rightarrow> state" where
  "setPerc r g b =
     \<lparr>rEl = toFixed2 r, gEl = toFixed2 g, bEl = toFixed2 b, rgb = (r / 100, g / 100, b / 100)\<rparr>"

text \<open>The start of a session: \<^verbatim>\<open>setPerc(33.3333,33.3333,33.3333)\<close>.\<close>

definition init_state :: state where
  "init_state = setPerc (333333 / 10000) (333333 / 10000) (333333 / 10000)"

text \<open>\<^verbatim>\<open>getRGB:()=>({r:rgb[0],g:rgb[1],b:rgb[2]})\<close>.\<close>

definition getRGB :: "state \<Rightarrow> real \<times> real \<times> real" where
  "getRGB s = rgb s"

text \<open>
  A number that \<^verbatim>\<open>rebalance\<close> hands to \<^verbatim>\<open>setPerc\<close>: finite, or one of the values that
  the division \<^verbatim>\<open>100/tot\<close> by zero brings in.
\<close>

datatype jsnum = Fin real | PosInf | NegInf | NaN

text \<open>
  \<^verbatim>\<open>v*=100/tot\<close>. For \<open>tot = 0\<close> the quotient is \<open>+Infinity\<close> (the sum \<open>tot\<close> has the
  summand \<^verbatim>\<open>newVal\<close>, which is never \<open>-0\<close>), and the product is \<open>NaN\<close> for \<open>v = 0\<close>.
\<close>

definition scale_to_100 :: "real \<Rightarrow> real \<Rightarrow> jsnum" where
  "scale_to_100 v tot =
     (if tot \<noteq> 0 then Fin (v * (100 / tot))
      else if v = 0 then NaN else if v > 0 then PosInf else NegInf)"

text \<open>
  The body of \<^verbatim>\<open>rebalance(focus,newVal)\<close> up to the call of \<^verbatim>\<open>setPerc\<close>, on the three
  numbers read from the fields. \<^verbatim>\<open>rem?(100-newVal)/rem:0.5\<close> tests \<open>rem\<close> for being
  nonzero.
\<close>

definition rebalance_values ::
  "real \<times> real \<times> real \<Rightarrow> channel \<Rightarrow> real \<Rightarrow> jsnum \<times> jsnum \<times> jsnum" where
  "rebalance_values vals focus newVal0 =
     (case vals of (r0, g0, b0) \<Rightarrow>
      case norm3p r0 g0 b0 of (r1, g1, b1) \<Rightarrow>
        let newVal = clamp01p newVal0 in
        case (case focus of
                ChR \<Rightarrow> (let rem = g1 + b1; k = (if rem \<noteq> 0 then (100 - newVal) / rem else 1 / 2)
                        in (newVal, g1 * k, b1 * k))
              | ChG \<Rightarrow> (let rem = r1 + b1; k = (if rem \<noteq> 0 then (100 - newVal) / rem else 1 / 2)
                        in (r1 * k, newVal, b1 * k))
              | ChB \<Rightarrow> (let rem = r1 + g1; k = (if rem \<noteq> 0 then (100 - newVal) / rem else 1 / 2)
                        in (r1 * k, g1 * k, newVal)))
        of (r, g, b) \<Rightarrow>
          let tot = r + g + b in
          if \<bar>tot - 100\<bar> > 1 / 1000 then
            (if focus \<noteq> ChR then scale_to_100 r tot else Fin r,
             if focus \<noteq> ChG then scale_to_100 g tot else Fin g,
             if focus \<noteq> ChB then scale_to_100 b tot else Fin b)
          else (Fin r, Fin g, Fin b))"

text \<open>
  \<^verbatim>\<open>rebalance\<close> on the state: it reads the fields, computes and calls \<^verbatim>\<open>setPerc\<close>.
  The fields of the model hold real numbers, so the step is \<open>None\<close> when a value handed
  to \<^verbatim>\<open>setPerc\<close> is not finite.
\<close>

definition rebalance :: "state \<Rightarrow> channel \<Rightarrow> real \<Rightarrow> state option" where
  "rebalance s focus newVal =
     (case rebalance_values (rEl s, gEl s, bEl s) focus newVal of
        (Fin r, Fin g, Fin b) \<Rightarrow> Some (setPerc r g b)
      | _ \<Rightarrow> None)"

text \<open>
  The listener of a field: the edited field already holds the typed number when
  \<^verbatim>\<open>rebalance(focus, parseFloat(el.value)||0)\<close> runs.
\<close>

definition type_in :: "state \<Rightarrow> channel \<Rightarrow> real \<Rightarrow> state" where
  "type_in s focus v =
     (case focus of ChR \<Rightarrow> s\<lparr>rEl := v\<rparr> | ChG \<Rightarrow> s\<lparr>gEl := v\<rparr> | ChB \<Rightarrow> s\<lparr>bEl := v\<rparr>)"

definition on_input :: "state \<Rightarrow> channel \<Rightarrow> real \<Rightarrow> state option" where
  "on_input s focus v = rebalance (type_in s focus v) focus v"

text \<open>
  \<^verbatim>\<open>handlePoint(mx,my)\<close> for the triangle \<open>Vtop, Vleft, Vright\<close>: the new state and
  the returned flag. A degenerate triangle gives weights that are not numbers, for which
  \<^verbatim>\<open>inside\<close> is false.
\<close>

definition handlePoint ::
  "point \<Rightarrow> point \<Rightarrow> point \<Rightarrow> channel_map \<Rightarrow> state \<Rightarrow> real \<Rightarrow> real \<Rightarrow> state \<times> bool" where
  "handlePoint Vtop Vleft Vright m s mx my =
     (case barycentric mx my Vtop Vleft Vright of
        None \<Rightarrow> (s, False)
      | Some wts \<Rightarrow>
          if \<not> inside_default wts then (s, False)
          else (case baryToRGB wts m of (r, g, b) \<Rightarrow> (setPerc (r * 100) (g * 100) (b * 100), True)))"

text \<open>
  The point that \<^verbatim>\<open>drawFromRGB\<close> draws:
  \<^verbatim>\<open>px=wt*Vtop.x+wl*Vleft.x+wr*Vright.x, py=wt*Vtop.y+wl*Vleft.y+wr*Vright.y\<close>.
\<close>

definition combine :: "real \<times> real \<times> real \<Rightarrow> point \<Rightarrow> point \<Rightarrow> point \<Rightarrow> point" where
  "combine w Vtop Vleft Vright =
     (case w of (wt, wl, wr) \<Rightarrow>
        \<lparr>xc = wt * xc Vtop + wl * xc Vleft + wr * xc Vright,
         yc = wt * yc Vtop + wl * yc Vleft + wr * yc Vright\<rparr>)"

definition drawFromRGB :: "point \<Rightarrow> point \<Rightarrow> point \<Rightarrow> channel_map \<Rightarrow> state \<Rightarrow> point" where
  "drawFromRGB Vtop Vleft Vright m s = combine (rgbToBary (rgb s) m) Vtop Vleft Vright"

subsection \<open>Vertex locator\<close>

text \<open>The triangle \<^verbatim>\<open>{top, left, right}\<close> that \<^verbatim>\<open>detectVerticesByAlpha\<close> returns.\<close>

record triangle =
  top_v :: point
  left_v :: point
  right_v :: point

text \<open>\<^verbatim>\<open>const TH=30;\<close>\<close>

definition TH :: nat where
  "TH = 30"

text \<open>
  The pixel array \<^verbatim>\<open>data\<close> of \<^verbatim>\<open>getImageData\<close> is a list of bytes, four for each
  pixel. \<^verbatim>\<open>data[(y*w+x)*4+3]>=TH\<close>: a read past the end of the array is
  \<^verbatim>\<open>undefined\<close>, for which the comparison is false.
\<close>

definition alpha_ok :: "nat list \<Rightarrow> nat \<Rightarrow> nat \<Rightarrow> nat \<Rightarrow> bool" where
  "alpha_ok data w x y =
     (let i = (y * w + x) * 4 + 3 in if i < length data then data ! i \<ge> TH else False)"

text \<open>
  The two loops \<^verbatim>\<open>for(y=0;y<h;y++) for(x=0;x<w;x++)\<close> with
  \<^verbatim>\<open>if(alpha>=TH) pts.push({x,y})\<close>, as folds over the two ranges that carry \<^verbatim>\<open>pts\<close>.
\<close>

definition scan_row :: "nat list \<Rightarrow> nat \<Rightarrow> nat \<Rightarrow> point list \<Rightarrow> point list" where
  "scan_row data w y pts0 =
     fold (\<lambda>x pts. if alpha_ok data w x y then pts @ [\<lparr>xc = real x, yc = real y\<rparr>] else pts)
       [0..<w] pts0"

definition scan :: "nat list \<Rightarrow> nat \<Rightarrow> nat \<Rightarrow> point list" where
  "scan data w h = fold (scan_row data w) [0..<h] []"

text \<open>The argument \<^verbatim>\<open>key\<close> of \<^verbatim>\<open>extreme\<close> is \<^verbatim>\<open>'x'\<close> or \<^verbatim>\<open>'y'\<close>; \<^verbatim>\<open>p[key]\<close>.\<close>

datatype axis = KeyX | KeyY

fun coord :: "axis \<Rightarrow> point \<Rightarrow> real" where
  "coord KeyX p = xc p"
| "coord KeyY p = yc p"

text \<open>The three fallback points of \<^verbatim>\<open>extreme\<close>, by \<^verbatim>\<open>key\<close> and \<^verbatim>\<open>min\<close>.\<close>

definition fallback_point :: "nat \<Rightarrow> nat \<Rightarrow> axis \<Rightarrow> bool \<Rightarrow> point" where
  "fallback_point w h key mn =
     (if key = KeyY then \<lparr>xc = real w / 2, yc = 0\<rparr>
      else if key = KeyX \<and> mn then \<lparr>xc = 0, yc = real h - 1\<rparr>
      else \<lparr>xc = real w - 1, yc = real h - 1\<rparr>)"

text \<open>
  The only failure of the locator: a call that spreads an array into its arguments
  raises \<^verbatim>\<open>RangeError\<close> when the array has more elements than the engine accepts as
  arguments.
\<close>

datatype error = RangeError

text \<open>
  \<^verbatim>\<open>min?Math.min(...vs):Math.max(...vs)\<close>. The source does not fix how many arguments
  a call may take, the engine does: it is the parameter \<open>argLimit\<close>. Within the limit,
  the minimum and the maximum of a non-empty array are folds from its first element.
\<close>

definition spread_extreme :: "nat \<Rightarrow> bool \<Rightarrow> real list \<Rightarrow> error + real" where
  "spread_extreme argLimit mn vs =
     (if length vs > argLimit then Inl RangeError
      else Inr (if mn then fold min (tl vs) (hd vs) else fold max (tl vs) (hd vs)))"

text \<open>
  The rest of \<^verbatim>\<open>extreme\<close> once \<^verbatim>\<open>ex\<close> is known (lines 55 to 65): the band filter and
  the three \<^verbatim>\<open>reduce\<close> calls, each a fold from its start value over the whole array.
\<close>

definition pick :: "point list \<Rightarrow> axis \<Rightarrow> real \<Rightarrow> real \<Rightarrow> point" where
  "pick pts key ex band =
     (let sel = filter (\<lambda>p. \<bar>coord key p - ex\<bar> \<le> band) pts in
      if sel = [] then
        fold (\<lambda>p b. if \<bar>coord key p - ex\<bar> < \<bar>coord key b - ex\<bar> then p else b) pts (hd pts)
      else if key = KeyY then
        let cx = fold (\<lambda>p s. s + xc p) sel 0 / real (length sel)
        in fold (\<lambda>p b. if \<bar>xc p - cx\<bar> < \<bar>xc b - cx\<bar> then p else b) sel (hd sel)
      else fold (\<lambda>p b. if yc p > yc b then p else b) sel (hd sel))"

text \<open>\<^verbatim>\<open>extreme(key,min,band)\<close> over the collected \<^verbatim>\<open>pts\<close>.\<close>

definition extreme ::
  "nat \<Rightarrow> point list \<Rightarrow> nat \<Rightarrow> nat \<Rightarrow> axis \<Rightarrow> bool \<Rightarrow> real \<Rightarrow> error + point" where
  "extreme argLimit pts w h key mn band =
     (if pts = [] then Inr (fallback_point w h key mn)
      else
        let vs = map (coord key) pts in
        if vs = [] then Inr (fallback_point w h key mn)
        else
          (case spread_extreme argLimit mn vs of
             Inl e \<Rightarrow> Inl e
           | Inr ex \<Rightarrow> Inr (pick pts key ex band)))"

text \<open>
  \<^verbatim>\<open>detectVerticesByAlpha(img,w,h)\<close>, from the pixel array on; the three calls of
  \<^verbatim>\<open>extreme\<close> leave \<^verbatim>\<open>band\<close> at its default 3 and run in the order top, left, right,
  the first failure ending the call.
\<close>

definition detectVerticesByAlpha :: "nat \<Rightarrow> nat list \<Rightarrow> nat \<Rightarrow> nat \<Rightarrow> error + triangle" where
  "detectVerticesByAlpha argLimit data w h =
     (let pts = scan data w h in
      if pts = [] then
        Inr \<lparr>top_v = \<lparr>xc = real w / 2, yc = 0\<rparr>,
             left_v = \<lparr>xc = 0, yc = real h - 1\<rparr>,
             right_v = \<lparr>xc = real w - 1, yc = real h - 1\<rparr>\<rparr>
      else
        (case extreme argLimit pts w h KeyY True 3 of
           Inl e \<Rightarrow> Inl e
         | Inr t \<Rightarrow>
             (case extreme argLimit pts w h KeyX True 3 of
                Inl e \<Rightarrow> Inl e
              | Inr l \<Rightarrow>
                  (case extreme argLimit pts w h KeyX False 3 of
                     Inl e \<Rightarrow> Inl e
                   | Inr r \<Rightarrow> Inr \<lparr>top_v = t, left_v = l, right_v = r\<rparr>))))"

section \<open>Properties\<close>

text \<open>
  C10. \<^verbatim>\<open>norm3p(0,0,0)\<close> is the triple \<open>(0, 0, 0)\<close>: the divisor is the guard
  \<open>1e-12\<close>, not zero, and the result sums to 0, not to 100.
\<close>

theorem norm3p_zero:
  "norm3p 0 0 0 = (0, 0, 0) \<and>
   (case norm3p 0 0 0 of (r, g, b) \<Rightarrow> r + g + b = 0 \<and> r + g + b \<noteq> 100)"
  by (simp add: norm3p_def)


subsection \<open>Barycentric weights and the point they stand for\<close>

lemma num_x:
  fixes ax ay bx byy cx cy px py :: real
  shows "((bx - px) * (cy - py) - (cx - px) * (byy - py)) * (ax - cx)
       + ((cx - px) * (ay - py) - (ax - px) * (cy - py)) * (bx - cx)
       = ((bx - ax) * (cy - ay) - (cx - ax) * (byy - ay)) * (px - cx)"
  by (simp add: algebra_simps)

lemma num_y:
  fixes ax ay bx byy cx cy px py :: real
  shows "((bx - px) * (cy - py) - (cx - px) * (byy - py)) * (ay - cy)
       + ((cx - px) * (ay - py) - (ax - px) * (cy - py)) * (byy - cy)
       = ((bx - ax) * (cy - ay) - (cx - ax) * (byy - ay)) * (py - cy)"
  by (simp add: algebra_simps)

lemma weighted_sum:
  fixes n1 n2 d a b c p :: real
  assumes "d \<noteq> 0" and "n1 * (a - c) + n2 * (b - c) = d * (p - c)"
  shows "n1 / d * a + n2 / d * b + (1 - n1 / d - n2 / d) * c = p"
proof -
  have "n1 / d * a + n2 / d * b + (1 - n1 / d - n2 / d) * c
      = (n1 * (a - c) + n2 * (b - c)) / d + c"
    by (simp add: algebra_simps add_divide_distrib diff_divide_distrib)
  also have "\<dots> = p" using assms by simp
  finally show ?thesis .
qed


lemma barycentric_Some:
  assumes "area (xc A) (yc A) (xc B) (yc B) (xc C) (yc C) \<noteq> 0"
  shows "barycentric px py A B C =
    Some (area px py (xc B) (yc B) (xc C) (yc C) / area (xc A) (yc A) (xc B) (yc B) (xc C) (yc C),
          area px py (xc C) (yc C) (xc A) (yc A) / area (xc A) (yc A) (xc B) (yc B) (xc C) (yc C),
          1 - area px py (xc B) (yc B) (xc C) (yc C) / area (xc A) (yc A) (xc B) (yc B) (xc C) (yc C)
            - area px py (xc C) (yc C) (xc A) (yc A) / area (xc A) (yc A) (xc B) (yc B) (xc C) (yc C))"
  using assms by (simp add: barycentric_def Let_def)

lemma combine_of_barycentric:
  assumes d: "area (xc A) (yc A) (xc B) (yc B) (xc C) (yc C) \<noteq> 0"
  shows "\<exists>w. barycentric px py A B C = Some w \<and> combine w A B C = \<lparr>xc = px, yc = py\<rparr>"
proof -
  let ?d = "area (xc A) (yc A) (xc B) (yc B) (xc C) (yc C)"
  let ?n1 = "area px py (xc B) (yc B) (xc C) (yc C)"
  let ?n2 = "area px py (xc C) (yc C) (xc A) (yc A)"
  have ex: "?n1 * (xc A - xc C) + ?n2 * (xc B - xc C) = ?d * (px - xc C)"
    unfolding area_def by (rule num_x)
  have ey: "?n1 * (yc A - yc C) + ?n2 * (yc B - yc C) = ?d * (py - yc C)"
    unfolding area_def by (rule num_y)
  have "combine (?n1 / ?d, ?n2 / ?d, 1 - ?n1 / ?d - ?n2 / ?d) A B C = \<lparr>xc = px, yc = py\<rparr>"
    using weighted_sum [OF d ex] weighted_sum [OF d ey] by (simp add: combine_def)
  then show ?thesis using barycentric_Some [OF d] by simp
qed

text \<open>
  C6. For a triangle whose \<^verbatim>\<open>area\<close> is not zero and any point, the weights that
  \<^verbatim>\<open>barycentric\<close> computes give the point back as the combination
  \<open>w\<^sub>1 \<cdot> A + w\<^sub>2 \<cdot> B + w\<^sub>3 \<cdot> C\<close> of the vertices (top, left, right). In exact arithmetic
  the round trip is an equation, and it holds inside and outside the triangle alike.
\<close>

theorem barycentric_roundtrip:
  assumes "area (xc A) (yc A) (xc B) (yc B) (xc C) (yc C) \<noteq> 0"
  shows "\<exists>w. barycentric px py A B C = Some w \<and> combine w A B C = \<lparr>xc = px, yc = py\<rparr>"
  using assms by (rule combine_of_barycentric)

theorem barycentric_roundtrip_witness:
  "area 50 0 0 100 100 100 \<noteq> 0 \<and>
   (\<exists>w. barycentric 50 60 \<lparr>xc = 50, yc = 0\<rparr> \<lparr>xc = 0, yc = 100\<rparr> \<lparr>xc = 100, yc = 100\<rparr> = Some w \<and>
        inside_default w \<and>
        combine w \<lparr>xc = 50, yc = 0\<rparr> \<lparr>xc = 0, yc = 100\<rparr> \<lparr>xc = 100, yc = 100\<rparr> = \<lparr>xc = 50, yc = 60\<rparr>)"
proof -
  have d: "area (xc \<lparr>xc = 50, yc = 0\<rparr>) (yc \<lparr>xc = 50, yc = 0\<rparr>) (xc \<lparr>xc = 0, yc = 100\<rparr>)
    (yc \<lparr>xc = 0, yc = 100\<rparr>) (xc \<lparr>xc = 100, yc = 100\<rparr>) (yc \<lparr>xc = 100, yc = 100\<rparr>) \<noteq> 0"
    by (simp add: area_def)
  from barycentric_roundtrip [OF d, of 50 60]
  obtain w where w: "barycentric 50 60 \<lparr>xc = 50, yc = 0\<rparr> \<lparr>xc = 0, yc = 100\<rparr> \<lparr>xc = 100, yc = 100\<rparr> = Some w"
    and c: "combine w \<lparr>xc = 50, yc = 0\<rparr> \<lparr>xc = 0, yc = 100\<rparr> \<lparr>xc = 100, yc = 100\<rparr> = \<lparr>xc = 50, yc = 60\<rparr>"
    by blast
  have "inside_default w"
    using w by (simp add: barycentric_def area_def inside_default_def inside_def Let_def split: if_splits) auto
  then show ?thesis using w c by (simp add: area_def)
qed

text \<open>
  The same round trip through the state: a click that \<^verbatim>\<open>handlePoint\<close> accepts is
  drawn by \<^verbatim>\<open>drawFromRGB\<close> at the clicked point (for the default \<^verbatim>\<open>vertexToChannel\<close>).
\<close>

lemma barycentric_sum:
  assumes "barycentric px py A B C = Some (w1, w2, w3)"
  shows "w1 + w2 + w3 = 1"
  using assms by (auto simp: barycentric_def Let_def split: if_splits)

lemma click_then_draw:
  assumes h: "handlePoint Vtop Vleft Vright vertexToChannel s mx my = (s', True)"
  shows "drawFromRGB Vtop Vleft Vright vertexToChannel s' = \<lparr>xc = mx, yc = my\<rparr>"
proof -
  from h obtain wt wl wr where b: "barycentric mx my Vtop Vleft Vright = Some (wt, wl, wr)"
    by (cases "barycentric mx my Vtop Vleft Vright") (auto simp: handlePoint_def)
  have d: "area (xc Vtop) (yc Vtop) (xc Vleft) (yc Vleft) (xc Vright) (yc Vright) \<noteq> 0"
    using b by (auto simp: barycentric_def Let_def split: if_splits)
  have s: "wl + wr + wt = 1" using barycentric_sum [OF b] by simp
  have m: "baryToRGB (wt, wl, wr) vertexToChannel = (wl, wr, wt)"
    by (simp add: baryToRGB_def vertexToChannel_def s)
  from h b have s': "s' = setPerc (wl * 100) (wr * 100) (wt * 100)"
    by (simp add: handlePoint_def m split: if_splits)
  have "rgbToBary (rgb s') vertexToChannel = (wt, wl, wr)"
    unfolding s' by (simp add: setPerc_def rgbToBary_def vertexToChannel_def)
  then show ?thesis
    using combine_of_barycentric [OF d, of mx my] b by (simp add: drawFromRGB_def)
qed

subsection \<open>The test \<^verbatim>\<open>inside\<close>\<close>

lemma area_of_combination:
  fixes ax ay bx byy cx cy u v :: real
  shows "area (u * ax + v * bx + (1 - u - v) * cx) (u * ay + v * byy + (1 - u - v) * cy) bx byy cx cy
           = u * area ax ay bx byy cx cy"
    and "area (u * ax + v * bx + (1 - u - v) * cx) (u * ay + v * byy + (1 - u - v) * cy) cx cy ax ay
           = v * area ax ay bx byy cx cy"
  by (simp_all add: area_def algebra_simps)

lemma barycentric_of_combination:
  assumes d: "area (xc A) (yc A) (xc B) (yc B) (xc C) (yc C) \<noteq> 0"
  shows "barycentric (u * xc A + v * xc B + (1 - u - v) * xc C)
                     (u * yc A + v * yc B + (1 - u - v) * yc C) A B C = Some (u, v, 1 - u - v)"
  using d by (simp add: barycentric_Some [OF d] area_of_combination)

lemma convex_lower:
  fixes a b c m w0 w1 w2 :: real
  assumes "0 \<le> w0" "0 \<le> w1" "0 \<le> w2" "w0 + w1 + w2 = 1" "m \<le> a" "m \<le> b" "m \<le> c"
  shows "m \<le> w0 * a + w1 * b + w2 * c"
proof -
  have "w0 * m \<le> w0 * a" "w1 * m \<le> w1 * b" "w2 * m \<le> w2 * c"
    using assms by (simp_all add: mult_left_mono)
  moreover have "w0 * m + w1 * m + w2 * m = m"
    using assms(4) by (simp add: distrib_right [symmetric])
  ultimately show ?thesis by linarith
qed

lemma convex_upper:
  fixes a b c m w0 w1 w2 :: real
  assumes "0 \<le> w0" "0 \<le> w1" "0 \<le> w2" "w0 + w1 + w2 = 1" "a \<le> m" "b \<le> m" "c \<le> m"
  shows "w0 * a + w1 * b + w2 * c \<le> m"
proof -
  have "w0 * a \<le> w0 * m" "w1 * b \<le> w1 * m" "w2 * c \<le> w2 * m"
    using assms by (simp_all add: mult_left_mono)
  moreover have "w0 * m + w1 * m + w2 * m = m"
    using assms(4) by (simp add: distrib_right [symmetric])
  ultimately show ?thesis by linarith
qed

lemma inside_in_bounding_box:
  assumes b: "barycentric px py A B C = Some w" and i: "inside_default w"
  shows "min (xc A) (min (xc B) (xc C)) \<le> px \<and> px \<le> max (xc A) (max (xc B) (xc C)) \<and>
         min (yc A) (min (yc B) (yc C)) \<le> py \<and> py \<le> max (yc A) (max (yc B) (yc C))"
proof -
  have d: "area (xc A) (yc A) (xc B) (yc B) (xc C) (yc C) \<noteq> 0"
    using b by (auto simp: barycentric_def Let_def split: if_splits)
  obtain w0 w1 w2 where w: "w = (w0, w1, w2)" by (cases w) auto
  from combine_of_barycentric [OF d, of px py] b
  have c: "combine w A B C = \<lparr>xc = px, yc = py\<rparr>" by auto
  have s: "w0 + w1 + w2 = 1"
    using b d unfolding w by (auto simp: barycentric_def Let_def)
  have p: "0 \<le> w0" "0 \<le> w1" "0 \<le> w2"
    using i unfolding w by (auto simp: inside_default_def inside_def)
  have x: "px = w0 * xc A + w1 * xc B + w2 * xc C" and y: "py = w0 * yc A + w1 * yc B + w2 * yc C"
    using c unfolding w by (auto simp: combine_def)
  show ?thesis
    unfolding x y
    using convex_lower [OF p s, of "min (xc A) (min (xc B) (xc C))" "xc A" "xc B" "xc C"]
          convex_upper [OF p s, of "xc A" "max (xc A) (max (xc B) (xc C))" "xc B" "xc C"]
          convex_lower [OF p s, of "min (yc A) (min (yc B) (yc C))" "yc A" "yc B" "yc C"]
          convex_upper [OF p s, of "yc A" "max (yc A) (max (yc B) (yc C))" "yc B" "yc C"]
    by simp
qed


lemma not_inside_zero:
  "\<not> inside_default (0, w1, w2)" "\<not> inside_default (w0, 0, w2)" "\<not> inside_default (w0, w1, 0)"
  by (simp_all add: inside_default_def inside_def)

lemma on_edge:
  assumes d: "area (xc A) (yc A) (xc B) (yc B) (xc C) (yc C) \<noteq> 0"
  shows "barycentric ((1 - t) * xc A + t * xc B) ((1 - t) * yc A + t * yc B) A B C = Some (1 - t, t, 0)"
    and "barycentric ((1 - t) * xc B + t * xc C) ((1 - t) * yc B + t * yc C) A B C = Some (0, 1 - t, t)"
    and "barycentric ((1 - t) * xc C + t * xc A) ((1 - t) * yc C + t * yc A) A B C = Some (t, 0, 1 - t)"
  using barycentric_of_combination [OF d, of "1 - t" t] barycentric_of_combination [OF d, of 0 "1 - t"]
    barycentric_of_combination [OF d, of t 0]
  by (simp_all add: add.commute)

lemma at_vertex:
  assumes d: "area (xc A) (yc A) (xc B) (yc B) (xc C) (yc C) \<noteq> 0"
  shows "barycentric (xc A) (yc A) A B C = Some (1, 0, 0)"
    and "barycentric (xc B) (yc B) A B C = Some (0, 1, 0)"
    and "barycentric (xc C) (yc C) A B C = Some (0, 0, 1)"
  using barycentric_of_combination [OF d, of 1 0] barycentric_of_combination [OF d, of 0 1]
    barycentric_of_combination [OF d, of 0 0]
  by simp_all

lemma at_centroid:
  assumes d: "area (xc A) (yc A) (xc B) (yc B) (xc C) (yc C) \<noteq> 0"
  shows "barycentric ((xc A + xc B + xc C) / 3) ((yc A + yc B + yc C) / 3) A B C = Some (1 / 3, 1 / 3, 1 / 3)"
proof -
  have "(xc A + xc B + xc C) / 3 = 1 / 3 * xc A + 1 / 3 * xc B + (1 - 1 / 3 - 1 / 3) * xc C"
       "(yc A + yc B + yc C) / 3 = 1 / 3 * yc A + 1 / 3 * yc B + (1 - 1 / 3 - 1 / 3) * yc C"
    by simp_all
  then show ?thesis using barycentric_of_combination [OF d, of "1 / 3" "1 / 3"]
    by (simp add: add_divide_distrib)
qed

text \<open>
  C2, as the code has it. \<^verbatim>\<open>inside(w)\<close> with the default \<^verbatim>\<open>t=1e-6\<close> is true if and only
  if all three weights are at least \<open>+1e-6\<close>: the test keeps a margin inside the triangle.
  So for a triangle of nonzero area it is false at the three vertices and at every point
  of the three edge lines, true at the centroid, and false at every point outside the
  bounding box of the vertices.
\<close>

theorem inside_margin:
  assumes d: "area (xc A) (yc A) (xc B) (yc B) (xc C) (yc C) \<noteq> 0"
  shows "(\<forall>w0 w1 w2. inside_default (w0, w1, w2) \<longleftrightarrow> 1 / 10 ^ 6 \<le> w0 \<and> 1 / 10 ^ 6 \<le> w1 \<and> 1 / 10 ^ 6 \<le> w2) \<and>
    (\<exists>w. barycentric (xc A) (yc A) A B C = Some w \<and> \<not> inside_default w) \<and>
    (\<exists>w. barycentric (xc B) (yc B) A B C = Some w \<and> \<not> inside_default w) \<and>
    (\<exists>w. barycentric (xc C) (yc C) A B C = Some w \<and> \<not> inside_default w) \<and>
    (\<forall>t. \<exists>w. barycentric ((1 - t) * xc A + t * xc B) ((1 - t) * yc A + t * yc B) A B C = Some w \<and>
       \<not> inside_default w) \<and>
    (\<forall>t. \<exists>w. barycentric ((1 - t) * xc B + t * xc C) ((1 - t) * yc B + t * yc C) A B C = Some w \<and>
       \<not> inside_default w) \<and>
    (\<forall>t. \<exists>w. barycentric ((1 - t) * xc C + t * xc A) ((1 - t) * yc C + t * yc A) A B C = Some w \<and>
       \<not> inside_default w) \<and>
    (\<exists>w. barycentric ((xc A + xc B + xc C) / 3) ((yc A + yc B + yc C) / 3) A B C = Some w \<and>
       inside_default w) \<and>
    (\<forall>px py. px < min (xc A) (min (xc B) (xc C)) \<or> max (xc A) (max (xc B) (xc C)) < px \<or>
             py < min (yc A) (min (yc B) (yc C)) \<or> max (yc A) (max (yc B) (yc C)) < py \<longrightarrow>
       (\<exists>w. barycentric px py A B C = Some w \<and> \<not> inside_default w))"
proof -
  have outside: "\<exists>w. barycentric px py A B C = Some w \<and> \<not> inside_default w"
    if o: "px < min (xc A) (min (xc B) (xc C)) \<or> max (xc A) (max (xc B) (xc C)) < px \<or>
           py < min (yc A) (min (yc B) (yc C)) \<or> max (yc A) (max (yc B) (yc C)) < py" for px py
  proof -
    obtain w where w: "barycentric px py A B C = Some w"
      using barycentric_Some [OF d] by blast
    have "\<not> inside_default w"
    proof
      assume "inside_default w"
      from inside_in_bounding_box [OF w this] o show False by linarith
    qed
    with w show ?thesis by blast
  qed
  show ?thesis
    using at_vertex [OF d] on_edge [OF d] at_centroid [OF d] outside
    by (simp add: not_inside_zero) (simp add: inside_default_def inside_def)
qed


theorem inside_margin_witness:
  "area 50 0 0 100 100 100 \<noteq> 0 \<and>
   (\<exists>w. barycentric 50 0 \<lparr>xc = 50, yc = 0\<rparr> \<lparr>xc = 0, yc = 100\<rparr> \<lparr>xc = 100, yc = 100\<rparr> = Some w \<and>
        \<not> inside_default w) \<and>
   (\<exists>w. barycentric 50 (200 / 3) \<lparr>xc = 50, yc = 0\<rparr> \<lparr>xc = 0, yc = 100\<rparr> \<lparr>xc = 100, yc = 100\<rparr> = Some w \<and>
        inside_default w) \<and>
   (\<exists>w. barycentric 500 500 \<lparr>xc = 50, yc = 0\<rparr> \<lparr>xc = 0, yc = 100\<rparr> \<lparr>xc = 100, yc = 100\<rparr> = Some w \<and>
        \<not> inside_default w)"
proof -
  let ?A = "\<lparr>xc = 50, yc = 0\<rparr>" and ?B = "\<lparr>xc = 0, yc = 100\<rparr>" and ?C = "\<lparr>xc = 100, yc = 100\<rparr>"
  have d: "area (xc ?A) (yc ?A) (xc ?B) (yc ?B) (xc ?C) (yc ?C) \<noteq> 0"
    by (simp add: area_def)
  note m = inside_margin [OF d]
  from m have v: "\<exists>w. barycentric (xc ?A) (yc ?A) ?A ?B ?C = Some w \<and> \<not> inside_default w"
    by blast
  from m have c: "\<exists>w. barycentric ((xc ?A + xc ?B + xc ?C) / 3) ((yc ?A + yc ?B + yc ?C) / 3) ?A ?B ?C = Some w \<and>
      inside_default w"
    by blast
  from m have "\<forall>px py. px < min (xc ?A) (min (xc ?B) (xc ?C)) \<or> max (xc ?A) (max (xc ?B) (xc ?C)) < px \<or>
             py < min (yc ?A) (min (yc ?B) (yc ?C)) \<or> max (yc ?A) (max (yc ?B) (yc ?C)) < py \<longrightarrow>
       (\<exists>w. barycentric px py ?A ?B ?C = Some w \<and> \<not> inside_default w)"
    by blast
  from this [rule_format, of 500 500]
  have o: "\<exists>w. barycentric 500 500 ?A ?B ?C = Some w \<and> \<not> inside_default w"
    by simp
  show ?thesis using v c o by (simp add: area_def)
qed

text \<open>
  The claim C2 as it is written fails at a vertex: for the triangle
  \<open>(50,0), (0,100), (100,100)\<close> the weights of the top vertex are \<open>(1, 0, 0)\<close>, all at
  least \<open>-1e-6\<close>, and \<^verbatim>\<open>inside\<close> is false.
\<close>

theorem inside_vertex_counterexample:
  "barycentric 50 0 \<lparr>xc = 50, yc = 0\<rparr> \<lparr>xc = 0, yc = 100\<rparr> \<lparr>xc = 100, yc = 100\<rparr> = Some (1, 0, 0) \<and>
   (1::real) \<ge> - (1 / 10 ^ 6) \<and> (0::real) \<ge> - (1 / 10 ^ 6) \<and>
   \<not> inside_default (1, 0, 0)"
  by (simp add: barycentric_def area_def inside_default_def inside_def)


subsection \<open>The vertex locator\<close>

lemma scan_row_fold:
  "fold (\<lambda>x pts. if alpha_ok data w x y then pts @ [\<lparr>xc = real x, yc = real y\<rparr>] else pts) xs pts0
     = pts0 @ map (\<lambda>x. \<lparr>xc = real x, yc = real y\<rparr>) (filter (\<lambda>x. alpha_ok data w x y) xs)"
  by (induction xs arbitrary: pts0) simp_all

lemma scan_row_eq:
  "scan_row data w y pts0
     = pts0 @ map (\<lambda>x. \<lparr>xc = real x, yc = real y\<rparr>) (filter (\<lambda>x. alpha_ok data w x y) [0..<w])"
  unfolding scan_row_def by (rule scan_row_fold)

lemma scan_fold:
  "fold (scan_row data w) ys acc
     = acc @ concat (map (\<lambda>y. map (\<lambda>x. \<lparr>xc = real x, yc = real y\<rparr>)
                                   (filter (\<lambda>x. alpha_ok data w x y) [0..<w])) ys)"
  by (induction ys arbitrary: acc) (simp_all add: scan_row_eq)

lemma scan_eq:
  "scan data w h = concat (map (\<lambda>y. map (\<lambda>x. \<lparr>xc = real x, yc = real y\<rparr>)
                                   (filter (\<lambda>x. alpha_ok data w x y) [0..<w])) [0..<h])"
  unfolding scan_def by (simp add: scan_fold)

lemma set_scan:
  "set (scan data w h) = {\<lparr>xc = real x, yc = real y\<rparr> | x y. x < w \<and> y < h \<and> alpha_ok data w x y}"
  unfolding scan_eq by auto

lemma scan_empty:
  assumes "\<forall>i. i < length data \<and> i mod 4 = 3 \<longrightarrow> data ! i < TH"
  shows "scan data w h = []"
proof -
  have "\<not> alpha_ok data w x y" for x y
  proof -
    have "((y * w + x) * 4 + 3) mod 4 = 3" by (simp only: mod_mult_self3) simp
    with assms show ?thesis by (auto simp: alpha_ok_def Let_def)
  qed
  then have "set (scan data w h) = {}" unfolding set_scan by simp
  then show ?thesis by simp
qed


lemma fold_min_Min:
  fixes vs :: "real list"
  assumes "vs \<noteq> []"
  shows "fold min (tl vs) (hd vs) = Min (set vs)" "fold max (tl vs) (hd vs) = Max (set vs)"
proof -
  obtain v vs' where v: "vs = v # vs'" using assms by (cases vs) auto
  show "fold min (tl vs) (hd vs) = Min (set vs)" unfolding v by (simp only: list.sel Min.set_eq_fold)
  show "fold max (tl vs) (hd vs) = Max (set vs)" unfolding v by (simp only: list.sel Max.set_eq_fold)
qed

lemma fold_sum:
  "fold (\<lambda>p s. s + xc p) sel (a::real) = a + sum_list (map xc sel)"
  by (induction sel arbitrary: a) simp_all

lemma fold_best:
  fixes f :: "'a \<Rightarrow> real"
  defines "r \<equiv> \<lambda>xs b0. fold (\<lambda>p b. if f p < f b then p else b) xs b0"
  shows "r xs b0 \<in> insert b0 (set xs) \<and> f (r xs b0) \<le> f b0 \<and> (\<forall>p\<in>set xs. f (r xs b0) \<le> f p)"
proof (induction xs arbitrary: b0)
  case Nil
  show ?case by (simp add: r_def)
next
  case (Cons x xs)
  have step: "r (x # xs) b0 = r xs (if f x < f b0 then x else b0)" by (simp add: r_def)
  from Cons [of "if f x < f b0 then x else b0"] show ?case
    unfolding step by (auto split: if_splits)
qed


lemma extreme_value:
  assumes "pts \<noteq> []"
  shows "fold min (tl (map (coord key) pts)) (hd (map (coord key) pts)) = Min (coord key ` set pts)"
    and "fold max (tl (map (coord key) pts)) (hd (map (coord key) pts)) = Max (coord key ` set pts)"
  using assms fold_min_Min [of "map (coord key) pts"] by simp_all

lemma band_nonempty:
  assumes "pts \<noteq> []" and "0 \<le> band"
  shows "filter (\<lambda>p. \<bar>coord key p - Min (coord key ` set pts)\<bar> \<le> band) pts \<noteq> []"
    and "filter (\<lambda>p. \<bar>coord key p - Max (coord key ` set pts)\<bar> \<le> band) pts \<noteq> []"
proof -
  have f: "finite (coord key ` set pts)" and n: "coord key ` set pts \<noteq> {}"
    using assms by simp_all
  from Min_in [OF f n] obtain p where p: "p \<in> set pts" "coord key p = Min (coord key ` set pts)"
    by auto
  then have "p \<in> set (filter (\<lambda>p. \<bar>coord key p - Min (coord key ` set pts)\<bar> \<le> band) pts)"
    using assms(2) by simp
  then show "filter (\<lambda>p. \<bar>coord key p - Min (coord key ` set pts)\<bar> \<le> band) pts \<noteq> []"
    by (metis empty_iff empty_set)
  from Max_in [OF f n] obtain q where q: "q \<in> set pts" "coord key q = Max (coord key ` set pts)"
    by auto
  then have "q \<in> set (filter (\<lambda>p. \<bar>coord key p - Max (coord key ` set pts)\<bar> \<le> band) pts)"
    using assms(2) by simp
  then show "filter (\<lambda>p. \<bar>coord key p - Max (coord key ` set pts)\<bar> \<le> band) pts \<noteq> []"
    by (metis empty_iff empty_set)
qed

lemma coord_simps: "coord KeyX = xc" "coord KeyY = yc"
  by (rule ext, simp)+

lemma fold_best_in:
  fixes f :: "'a \<Rightarrow> real"
  assumes "xs \<noteq> []"
  shows "fold (\<lambda>p b. if f p < f b then p else b) xs (hd xs) \<in> set xs"
    and "\<forall>p\<in>set xs. f (fold (\<lambda>p b. if f p < f b then p else b) xs (hd xs)) \<le> f p"
  using fold_best [of f xs "hd xs"] hd_in_set [OF assms] by (auto simp: insert_absorb)

lemma fold_lowest_in:
  assumes "xs \<noteq> []"
  shows "fold (\<lambda>p b. if yc p > yc b then p else b) xs (hd xs) \<in> set xs"
    and "\<forall>p\<in>set xs. yc p \<le> yc (fold (\<lambda>p b. if yc p > yc b then p else b) xs (hd xs))"
  using fold_best_in [OF assms, of "\<lambda>p. - yc p"] by simp_all

lemma pick_top:
  assumes n: "pts \<noteq> []"
  defines "sel \<equiv> filter (\<lambda>p. \<bar>yc p - Min (yc ` set pts)\<bar> \<le> 3) pts"
  defines "cx \<equiv> sum_list (map xc sel) / real (length sel)"
  shows "pick pts KeyY (Min (yc ` set pts)) 3 \<in> set sel"
    and "\<forall>p\<in>set sel. \<bar>xc (pick pts KeyY (Min (yc ` set pts)) 3) - cx\<bar> \<le> \<bar>xc p - cx\<bar>"
proof -
  have s: "sel \<noteq> []"
    using band_nonempty(1) [OF n, of 3 KeyY] unfolding sel_def coord_simps by simp
  have e: "pick pts KeyY (Min (yc ` set pts)) 3 =
      fold (\<lambda>p b. if \<bar>xc p - cx\<bar> < \<bar>xc b - cx\<bar> then p else b) sel (hd sel)"
    using s unfolding pick_def Let_def coord_simps cx_def sel_def by (simp add: fold_sum)
  show "pick pts KeyY (Min (yc ` set pts)) 3 \<in> set sel"
    unfolding e by (rule fold_best_in(1) [OF s])
  show "\<forall>p\<in>set sel. \<bar>xc (pick pts KeyY (Min (yc ` set pts)) 3) - cx\<bar> \<le> \<bar>xc p - cx\<bar>"
    unfolding e by (rule fold_best_in(2) [OF s, of "\<lambda>p. \<bar>xc p - cx\<bar>"])
qed

lemma pick_side:
  fixes ex :: real
  assumes s: "filter (\<lambda>p. \<bar>xc p - ex\<bar> \<le> 3) pts \<noteq> []"
  shows "pick pts KeyX ex 3 \<in> set (filter (\<lambda>p. \<bar>xc p - ex\<bar> \<le> 3) pts)"
    and "\<forall>p\<in>set (filter (\<lambda>p. \<bar>xc p - ex\<bar> \<le> 3) pts). yc p \<le> yc (pick pts KeyX ex 3)"
proof -
  have e: "pick pts KeyX ex 3 =
      fold (\<lambda>p b. if yc p > yc b then p else b) (filter (\<lambda>p. \<bar>xc p - ex\<bar> \<le> 3) pts)
        (hd (filter (\<lambda>p. \<bar>xc p - ex\<bar> \<le> 3) pts))"
    using s unfolding pick_def Let_def coord_simps by simp
  show "pick pts KeyX ex 3 \<in> set (filter (\<lambda>p. \<bar>xc p - ex\<bar> \<le> 3) pts)"
    unfolding e by (rule fold_lowest_in(1) [OF s])
  show "\<forall>p\<in>set (filter (\<lambda>p. \<bar>xc p - ex\<bar> \<le> 3) pts). yc p \<le> yc (pick pts KeyX ex 3)"
    unfolding e by (rule fold_lowest_in(2) [OF s])
qed

lemma extreme_within:
  assumes n: "pts \<noteq> []" and l: "length pts \<le> argLimit"
  shows "extreme argLimit pts w h key True band = Inr (pick pts key (Min (coord key ` set pts)) band)"
    and "extreme argLimit pts w h key False band = Inr (pick pts key (Max (coord key ` set pts)) band)"
  using n l by (simp_all add: extreme_def spread_extreme_def extreme_value [OF n])

lemma extreme_beyond:
  assumes "argLimit < length pts"
  shows "extreme argLimit pts w h key mn band = Inl RangeError"
proof -
  from assms have "pts \<noteq> []" by auto
  with assms show ?thesis by (simp add: extreme_def spread_extreme_def)
qed

lemma detect_within:
  assumes n: "scan data w h \<noteq> []" and l: "length (scan data w h) \<le> argLimit"
  shows "detectVerticesByAlpha argLimit data w h =
    Inr \<lparr>top_v = pick (scan data w h) KeyY (Min (yc ` set (scan data w h))) 3,
         left_v = pick (scan data w h) KeyX (Min (xc ` set (scan data w h))) 3,
         right_v = pick (scan data w h) KeyX (Max (xc ` set (scan data w h))) 3\<rparr>"
  using n unfolding detectVerticesByAlpha_def Let_def extreme_within [OF n l] coord_simps
  by simp

lemma detect_beyond:
  assumes "argLimit < length (scan data w h)"
  shows "detectVerticesByAlpha argLimit data w h = Inl RangeError"
proof -
  from assms have "scan data w h \<noteq> []" by auto
  then show ?thesis
    unfolding detectVerticesByAlpha_def Let_def extreme_beyond [OF assms] by simp
qed

text \<open>
  C7. When no alpha byte of the pixel array reaches the threshold 30, for any width and
  height and any limit of the engine, \<^verbatim>\<open>detectVerticesByAlpha\<close> returns the triangle
  \<open>top = (w/2, 0)\<close>, \<open>left = (0, h-1)\<close>, \<open>right = (w-1, h-1)\<close>: it returns before any call
  of \<^verbatim>\<open>extreme\<close>, so nothing is raised.
\<close>

theorem detect_fallback:
  assumes "\<forall>i. i < length data \<and> i mod 4 = 3 \<longrightarrow> data ! i < 30"
  shows "detectVerticesByAlpha argLimit data w h =
    Inr \<lparr>top_v = \<lparr>xc = real w / 2, yc = 0\<rparr>,
         left_v = \<lparr>xc = 0, yc = real h - 1\<rparr>,
         right_v = \<lparr>xc = real w - 1, yc = real h - 1\<rparr>\<rparr>"
proof -
  have "scan data w h = []"
    using assms by (intro scan_empty) (simp add: TH_def)
  then show ?thesis by (simp add: detectVerticesByAlpha_def)
qed

theorem detect_fallback_witness:
  "detectVerticesByAlpha 0 (replicate 16 0) 2 2 =
    Inr \<lparr>top_v = \<lparr>xc = 1, yc = 0\<rparr>, left_v = \<lparr>xc = 0, yc = 1\<rparr>, right_v = \<lparr>xc = 1, yc = 1\<rparr>\<rparr>"
proof -
  have h: "\<forall>i. i < length (replicate 16 (0::nat)) \<and> i mod 4 = 3 \<longrightarrow> replicate 16 (0::nat) ! i < 30"
    by simp
  from detect_fallback [OF h, of 0 2 2] show ?thesis by simp
qed

text \<open>
  The choice of the vertices, for an image with a pixel of alpha at least 30 whose
  collected points the engine accepts as arguments: the collected points are the pixels
  with such an alpha, and the returned vertices are, for top, a point of the band within
  3 of the least \<open>y\<close> whose \<open>x\<close> is nearest to the mean \<open>x\<close> of that band; for left, a
  point of the band within 3 of the least \<open>x\<close> with the largest \<open>y\<close>; for right, a point
  of the band within 3 of the greatest \<open>x\<close> with the largest \<open>y\<close>.
\<close>

lemma detect_band_extremes:
  assumes "x < w" and "y < h"
    and "(y * w + x) * 4 + 3 < length data" and "data ! ((y * w + x) * 4 + 3) \<ge> 30"
    and l: "length (scan data w h) \<le> argLimit"
  shows "\<exists>t. detectVerticesByAlpha argLimit data w h = Inr t \<and>
        (let pts = scan data w h;
             selT = filter (\<lambda>p. \<bar>yc p - Min (yc ` set pts)\<bar> \<le> 3) pts;
             cx = sum_list (map xc selT) / real (length selT);
             selL = filter (\<lambda>p. \<bar>xc p - Min (xc ` set pts)\<bar> \<le> 3) pts;
             selR = filter (\<lambda>p. \<bar>xc p - Max (xc ` set pts)\<bar> \<le> 3) pts
         in set pts = {\<lparr>xc = real i, yc = real j\<rparr> | i j. i < w \<and> j < h \<and> alpha_ok data w i j} \<and>
            top_v t \<in> set selT \<and> (\<forall>p\<in>set selT. \<bar>xc (top_v t) - cx\<bar> \<le> \<bar>xc p - cx\<bar>) \<and>
            left_v t \<in> set selL \<and> (\<forall>p\<in>set selL. yc p \<le> yc (left_v t)) \<and>
            right_v t \<in> set selR \<and> (\<forall>p\<in>set selR. yc p \<le> yc (right_v t)))"
proof -
  have "alpha_ok data w x y" using assms(3,4) by (simp add: alpha_ok_def TH_def)
  with assms(1,2) have "\<lparr>xc = real x, yc = real y\<rparr> \<in> set (scan data w h)"
    unfolding set_scan by blast
  then have n: "scan data w h \<noteq> []" by (metis empty_iff empty_set)
  have s: "filter (\<lambda>p. \<bar>xc p - Min (xc ` set (scan data w h))\<bar> \<le> 3) (scan data w h) \<noteq> []"
    "filter (\<lambda>p. \<bar>xc p - Max (xc ` set (scan data w h))\<bar> \<le> 3) (scan data w h) \<noteq> []"
    using band_nonempty [OF n, of 3 KeyX] unfolding coord_simps by simp_all
  show ?thesis
    unfolding detect_within [OF n l] Let_def
    using set_scan [of data w h] pick_top [OF n] pick_side [OF s(1)] pick_side [OF s(2)]
    by simp
qed

text \<open>
  A 9 by 5 image of a triangle, with alpha 29 and 0 outside it: the band of the top
  leaves out the bottom row, and the bands of left and right leave out the middle.
\<close>

lemma detect_band_example:
  "detectVerticesByAlpha 100
     [0, 0, 0, 29, 0, 0, 0, 0, 0, 0, 0, 0, 0, 0, 0, 29, 0, 0, 0, 30, 0, 0, 0, 0, 0, 0, 0, 29,
      0, 0, 0, 0, 0, 0, 0, 0, 0, 0, 0, 0, 0, 0, 0, 0, 0, 0, 0, 29, 0, 0, 0, 30, 0, 0, 0, 255,
      0, 0, 0, 30, 0, 0, 0, 0, 0, 0, 0, 0, 0, 0, 0, 29, 0, 0, 0, 0, 0, 0, 0, 29, 0, 0, 0, 30,
      0, 0, 0, 255, 0, 0, 0, 30, 0, 0, 0, 255, 0, 0, 0, 30, 0, 0, 0, 29, 0, 0, 0, 0, 0, 0, 0,
      29, 0, 0, 0, 30, 0, 0, 0, 255, 0, 0, 0, 30, 0, 0, 0, 255, 0, 0, 0, 30, 0, 0, 0, 255, 0,
      0, 0, 30, 0, 0, 0, 0, 0, 0, 0, 30, 0, 0, 0, 255, 0, 0, 0, 30, 0, 0, 0, 255, 0, 0, 0, 30,
      0, 0, 0, 255, 0, 0, 0, 30, 0, 0, 0, 255, 0, 0, 0, 30] 9 5
   = Inr \<lparr>top_v = \<lparr>xc = 4, yc = 0\<rparr>, left_v = \<lparr>xc = 0, yc = 4\<rparr>, right_v = \<lparr>xc = 5, yc = 4\<rparr>\<rparr>"
  by code_simp

lemma length_scan_opaque:
  assumes "\<forall>y<h. \<forall>x<w. alpha_ok data w x y"
  shows "length (scan data w h) = w * h"
proof -
  have row: "filter (\<lambda>x. alpha_ok data w x y) [0..<w] = [0..<w]" if "y < h" for y
    using assms that by (intro filter_True) simp
  have "scan data w h = concat (map (\<lambda>y. map (\<lambda>x. \<lparr>xc = real x, yc = real y\<rparr>) [0..<w]) [0..<h])"
    unfolding scan_eq by (intro arg_cong [where f = concat] map_cong refl) (simp add: row)
  then have "length (scan data w h) = sum_list (map (\<lambda>y. w) [0..<h])"
    by (simp add: length_concat comp_def)
  then show ?thesis by (simp add: sum_list_triv)
qed

lemma pixel_index:
  fixes x y w h :: nat
  assumes "x < w" and "y < h"
  shows "(y * w + x) * 4 + 3 < 4 * (w * h)"
proof -
  have "y * w + x < y * w + w" using assms(1) by simp
  also have "\<dots> = Suc y * w" by simp
  also have "\<dots> \<le> h * w" using assms(2) by (intro mult_le_mono1) simp
  finally have "y * w + x < w * h" by (simp add: mult.commute)
  then show ?thesis by simp
qed

text \<open>
  C8. The choice of the vertices above is what the claim says, but the code does not
  return for every image: when every pixel of a \<open>w\<close> by \<open>h\<close> image has alpha at least 30
  and the engine accepts fewer than \<open>w * h\<close> arguments, \<^verbatim>\<open>Math.min(...vs)\<close> raises
  \<^verbatim>\<open>RangeError\<close> and no triangle is returned.
\<close>

theorem detect_raises_beyond_limit:
  assumes "\<forall>i. i < 4 * (w * h) \<and> i mod 4 = 3 \<longrightarrow> i < length data \<and> 30 \<le> data ! i"
    and "argLimit < w * h"
  shows "detectVerticesByAlpha argLimit data w h = Inl RangeError"
proof -
  have "alpha_ok data w x y" if "x < w" "y < h" for x y
  proof -
    have "((y * w + x) * 4 + 3) mod 4 = 3" by (simp only: mod_mult_self3) simp
    with assms(1) pixel_index [OF that] show ?thesis
      by (simp add: alpha_ok_def TH_def)
  qed
  then have "length (scan data w h) = w * h"
    by (intro length_scan_opaque) simp
  with assms(2) show ?thesis by (intro detect_beyond) simp
qed

lemma opaque_image:
  "\<forall>i. i < 4 * (w * h) \<and> i mod 4 = 3 \<longrightarrow>
     i < length (replicate (4 * (w * h)) (255::nat)) \<and> 30 \<le> replicate (4 * (w * h)) (255::nat) ! i"
  by simp

theorem detect_raises_beyond_limit_witness:
  "(65536::nat) < 400 * 400 \<and>
   detectVerticesByAlpha 65536 (replicate (4 * (400 * 400)) 255) 400 400 = Inl RangeError"
proof -
  have l: "(65536::nat) < 400 * 400" by simp
  from detect_raises_beyond_limit [OF opaque_image l] l show ?thesis by (rule conjI [rotated])
qed

subsection \<open>Rebalancing\<close>

lemma norm3p_pos:
  "norm3p r g b = (r / max (r + g + b) (1 / 10 ^ 12) * 100, g / max (r + g + b) (1 / 10 ^ 12) * 100,
     b / max (r + g + b) (1 / 10 ^ 12) * 100)"
  "max (r + g + b) (1 / 10 ^ 12) > 0"
  by (simp_all add: norm3p_def Let_def max_def)

lemma scaled_sum:
  fixes x y s :: real
  shows "x / s * 100 + y / s * 100 = (x + y) * (100 / s)"
  by (simp add: add_divide_distrib [symmetric] distrib_right)

lemma rem_zero_iff:
  fixes x y s :: real
  assumes "s > 0"
  shows "x / s * 100 + y / s * 100 = 0 \<longleftrightarrow> x + y = 0"
proof -
  have "100 / s \<noteq> 0" using assms by simp
  then show ?thesis unfolding scaled_sum by (simp only: mult_eq_0_iff) simp
qed

lemma scaled_share:
  fixes x y s n :: real
  assumes "s > 0" "x + y \<noteq> 0"
  shows "x / s * 100 * (n / (x / s * 100 + y / s * 100)) = x * n / (x + y)"
proof -
  have c: "100 / s \<noteq> 0" using assms by simp
  have "x / s * 100 * (n / (x / s * 100 + y / s * 100)) = (x * (100 / s)) * (n / ((x + y) * (100 / s)))"
    unfolding scaled_sum by simp
  also have "\<dots> = (x * n) * (100 / s) / ((x + y) * (100 / s))"
    by (simp only: times_divide_eq_right mult.commute mult.left_commute)
  also have "\<dots> = x * n / (x + y)"
    using c by (rule mult_divide_mult_cancel_right)
  finally show ?thesis .
qed

lemma shares_sum:
  fixes x y n :: real
  assumes "x + y \<noteq> 0"
  shows "x * n / (x + y) + y * n / (x + y) = n"
proof -
  have "x * n / (x + y) + y * n / (x + y) = (x + y) * n / (x + y)"
    by (simp add: add_divide_distrib [symmetric] distrib_right)
  then show ?thesis using assms by simp
qed


lemma rebalance_values_R:
  "rebalance_values (r0, g0, b0) ChR v =
     (if g0 + b0 \<noteq> 0
      then (Fin (clamp01p v), Fin (g0 * (100 - clamp01p v) / (g0 + b0)),
            Fin (b0 * (100 - clamp01p v) / (g0 + b0)))
      else let g = g0 / max (r0 + g0 + b0) (1 / 10 ^ 12) * 100 * (1 / 2);
               b = b0 / max (r0 + g0 + b0) (1 / 10 ^ 12) * 100 * (1 / 2);
               tot = clamp01p v + g + b
           in if \<bar>tot - 100\<bar> > 1 / 1000
              then (Fin (clamp01p v), scale_to_100 g tot, scale_to_100 b tot)
              else (Fin (clamp01p v), Fin g, Fin b))"
proof (cases "g0 + b0 = 0")
  case True
  let ?s = "max (r0 + g0 + b0) (1 / 10 ^ 12)"
  have rem: "g0 / ?s * 100 + b0 / ?s * 100 = 0"
    using rem_zero_iff [OF norm3p_pos(2), of g0 r0 g0 b0 b0] True by simp
  show ?thesis
    unfolding rebalance_values_def norm3p_pos(1) Let_def prod.case channel.case
    by (simp only: rem True) simp
next
  case False
  let ?s = "max (r0 + g0 + b0) (1 / 10 ^ 12)"
  let ?n = "100 - clamp01p v"
  have rem: "g0 / ?s * 100 + b0 / ?s * 100 \<noteq> 0"
    using rem_zero_iff [OF norm3p_pos(2), of g0 r0 g0 b0 b0] False by simp
  have g: "g0 / ?s * 100 * (?n / (g0 / ?s * 100 + b0 / ?s * 100)) = g0 * ?n / (g0 + b0)"
    using scaled_share [OF norm3p_pos(2) False] by simp
  have b: "b0 / ?s * 100 * (?n / (g0 / ?s * 100 + b0 / ?s * 100)) = b0 * ?n / (g0 + b0)"
    using scaled_share [OF norm3p_pos(2), of b0 g0 r0 g0 b0 ?n] False by (simp add: add.commute)
  have tot: "clamp01p v + g0 * ?n / (g0 + b0) + b0 * ?n / (g0 + b0) = 100"
    using shares_sum [OF False, of ?n] by simp
  show ?thesis
    unfolding rebalance_values_def norm3p_pos(1) Let_def prod.case channel.case
    by (simp only: rem False if_True if_False not_False_eq_True not_True_eq_False g b tot) simp
qed


lemma rebalance_values_G:
  "rebalance_values (r0, g0, b0) ChG v =
     (if r0 + b0 \<noteq> 0
      then (Fin (r0 * (100 - clamp01p v) / (r0 + b0)), Fin (clamp01p v),
            Fin (b0 * (100 - clamp01p v) / (r0 + b0)))
      else let r = r0 / max (r0 + g0 + b0) (1 / 10 ^ 12) * 100 * (1 / 2);
               b = b0 / max (r0 + g0 + b0) (1 / 10 ^ 12) * 100 * (1 / 2);
               tot = r + clamp01p v + b
           in if \<bar>tot - 100\<bar> > 1 / 1000
              then (scale_to_100 r tot, Fin (clamp01p v), scale_to_100 b tot)
              else (Fin r, Fin (clamp01p v), Fin b))"
proof (cases "r0 + b0 = 0")
  case True
  let ?s = "max (r0 + g0 + b0) (1 / 10 ^ 12)"
  have rem: "r0 / ?s * 100 + b0 / ?s * 100 = 0"
    using rem_zero_iff [OF norm3p_pos(2), of r0 r0 g0 b0 b0] True by simp
  show ?thesis
    unfolding rebalance_values_def norm3p_pos(1) Let_def prod.case channel.case
    by (simp only: rem True) simp
next
  case False
  let ?s = "max (r0 + g0 + b0) (1 / 10 ^ 12)"
  let ?n = "100 - clamp01p v"
  have rem: "r0 / ?s * 100 + b0 / ?s * 100 \<noteq> 0"
    using rem_zero_iff [OF norm3p_pos(2), of r0 r0 g0 b0 b0] False by simp
  have r: "r0 / ?s * 100 * (?n / (r0 / ?s * 100 + b0 / ?s * 100)) = r0 * ?n / (r0 + b0)"
    using scaled_share [OF norm3p_pos(2) False] by simp
  have b: "b0 / ?s * 100 * (?n / (r0 / ?s * 100 + b0 / ?s * 100)) = b0 * ?n / (r0 + b0)"
    using scaled_share [OF norm3p_pos(2), of b0 r0 r0 g0 b0 ?n] False by (simp add: add.commute)
  have tot: "r0 * ?n / (r0 + b0) + clamp01p v + b0 * ?n / (r0 + b0) = 100"
    using shares_sum [OF False, of ?n] by simp
  show ?thesis
    unfolding rebalance_values_def norm3p_pos(1) Let_def prod.case channel.case
    by (simp only: rem False if_True if_False not_False_eq_True not_True_eq_False r b tot) simp
qed

lemma rebalance_values_B:
  "rebalance_values (r0, g0, b0) ChB v =
     (if r0 + g0 \<noteq> 0
      then (Fin (r0 * (100 - clamp01p v) / (r0 + g0)), Fin (g0 * (100 - clamp01p v) / (r0 + g0)),
            Fin (clamp01p v))
      else let r = r0 / max (r0 + g0 + b0) (1 / 10 ^ 12) * 100 * (1 / 2);
               g = g0 / max (r0 + g0 + b0) (1 / 10 ^ 12) * 100 * (1 / 2);
               tot = r + g + clamp01p v
           in if \<bar>tot - 100\<bar> > 1 / 1000
              then (scale_to_100 r tot, scale_to_100 g tot, Fin (clamp01p v))
              else (Fin r, Fin g, Fin (clamp01p v)))"
proof (cases "r0 + g0 = 0")
  case True
  let ?s = "max (r0 + g0 + b0) (1 / 10 ^ 12)"
  have rem: "r0 / ?s * 100 + g0 / ?s * 100 = 0"
    using rem_zero_iff [OF norm3p_pos(2), of r0 r0 g0 b0 g0] True by simp
  show ?thesis
    unfolding rebalance_values_def norm3p_pos(1) Let_def prod.case channel.case
    by (simp only: rem) (simp add: True)
next
  case False
  let ?s = "max (r0 + g0 + b0) (1 / 10 ^ 12)"
  let ?n = "100 - clamp01p v"
  have rem: "r0 / ?s * 100 + g0 / ?s * 100 \<noteq> 0"
    using rem_zero_iff [OF norm3p_pos(2), of r0 r0 g0 b0 g0] False by simp
  have r: "r0 / ?s * 100 * (?n / (r0 / ?s * 100 + g0 / ?s * 100)) = r0 * ?n / (r0 + g0)"
    using scaled_share [OF norm3p_pos(2) False] by simp
  have g: "g0 / ?s * 100 * (?n / (r0 / ?s * 100 + g0 / ?s * 100)) = g0 * ?n / (r0 + g0)"
    using scaled_share [OF norm3p_pos(2), of g0 r0 r0 g0 b0 ?n] False by (simp add: add.commute)
  have tot: "r0 * ?n / (r0 + g0) + g0 * ?n / (r0 + g0) + clamp01p v = 100"
    using shares_sum [OF False, of ?n] by simp
  show ?thesis
    unfolding rebalance_values_def norm3p_pos(1) Let_def prod.case channel.case
    by (simp only: rem False if_True if_False not_False_eq_True not_True_eq_False r g tot) simp
qed

lemma share_nonneg:
  fixes x y n :: real
  assumes "0 \<le> x" "0 \<le> y" "0 \<le> n"
  shows "0 \<le> x * n / (x + y)"
  using assms by simp

lemma clamp01p_range: "0 \<le> clamp01p v" "clamp01p v \<le> 100" "0 \<le> 100 - clamp01p v"
  by (simp_all add: clamp01p_def)

lemma rebalance_Some:
  assumes "rebalance s c v = Some s1"
  shows "\<exists>r g b. rebalance_values (rEl s, gEl s, bEl s) c v = (Fin r, Fin g, Fin b) \<and> s1 = setPerc r g b"
  using assms by (auto simp: rebalance_def split: prod.splits jsnum.splits)

lemma others_result_nonneg:
  assumes nn: "\<forall>c'. c' \<noteq> c \<longrightarrow> 0 \<le> val_of vals c'"
    and r: "rebalance_values vals c v = (Fin r, Fin g, Fin b)"
  shows "\<forall>c'. c' \<noteq> c \<longrightarrow> 0 \<le> val_of (r, g, b) c'"
proof -
  obtain r0 g0 b0 where v: "vals = (r0, g0, b0)" by (cases vals) auto
  have n: "0 \<le> 100 - clamp01p v" by (rule clamp01p_range(3))
  show ?thesis
  proof (cases c)
    case ChR
    from nn [rule_format, of ChG] nn [rule_format, of ChB] have p: "0 \<le> g0" "0 \<le> b0"
      by (simp_all add: v ChR)
    have "0 \<le> g \<and> 0 \<le> b"
    proof (cases "g0 + b0 = 0")
      case True
      with p have z: "g0 = 0" "b0 = 0" by simp_all
      from r show ?thesis unfolding v ChR rebalance_values_R z
        by (simp add: Let_def scale_to_100_def split: if_splits)
    next
      case False
      with r have "g = g0 * (100 - clamp01p v) / (g0 + b0)" "b = b0 * (100 - clamp01p v) / (g0 + b0)"
        unfolding v ChR rebalance_values_R by auto
      then show ?thesis
        using share_nonneg [OF p n] share_nonneg [OF p(2) p(1) n] by (simp add: add.commute)
    qed
    then show ?thesis unfolding ChR by (intro allI impI, case_tac c') simp_all
  next
    case ChG
    from nn [rule_format, of ChR] nn [rule_format, of ChB] have p: "0 \<le> r0" "0 \<le> b0"
      by (simp_all add: v ChG)
    have "0 \<le> r \<and> 0 \<le> b"
    proof (cases "r0 + b0 = 0")
      case True
      with p have z: "r0 = 0" "b0 = 0" by simp_all
      from r show ?thesis unfolding v ChG rebalance_values_G z
        by (simp add: Let_def scale_to_100_def split: if_splits)
    next
      case False
      with r have "r = r0 * (100 - clamp01p v) / (r0 + b0)" "b = b0 * (100 - clamp01p v) / (r0 + b0)"
        unfolding v ChG rebalance_values_G by auto
      then show ?thesis
        using share_nonneg [OF p n] share_nonneg [OF p(2) p(1) n] by (simp add: add.commute)
    qed
    then show ?thesis unfolding ChG by (intro allI impI, case_tac c') simp_all
  next
    case ChB
    from nn [rule_format, of ChR] nn [rule_format, of ChG] have p: "0 \<le> r0" "0 \<le> g0"
      by (simp_all add: v ChB)
    have "0 \<le> r \<and> 0 \<le> g"
    proof (cases "r0 + g0 = 0")
      case True
      with p have z: "r0 = 0" "g0 = 0" by simp_all
      from r show ?thesis unfolding v ChB rebalance_values_B z
        by (simp add: Let_def scale_to_100_def split: if_splits)
    next
      case False
      with r have "r = r0 * (100 - clamp01p v) / (r0 + g0)" "g = g0 * (100 - clamp01p v) / (r0 + g0)"
        unfolding v ChB rebalance_values_B by auto
      then show ?thesis
        using share_nonneg [OF p n] share_nonneg [OF p(2) p(1) n] by (simp add: add.commute)
    qed
    then show ?thesis unfolding ChB by (intro allI impI, case_tac c') simp_all
  qed
qed

lemma focus_irrelevant:
  assumes nn: "\<forall>c'. c' \<noteq> c \<longrightarrow> 0 \<le> val_of vals c'"
  shows "rebalance_values (set_out c x vals) c v = rebalance_values vals c v"
proof -
  obtain r0 g0 b0 where v: "vals = (r0, g0, b0)" by (cases vals) auto
  show ?thesis
  proof (cases c)
    case ChR
    from nn [rule_format, of ChG] nn [rule_format, of ChB] have p: "0 \<le> g0" "0 \<le> b0"
      by (simp_all add: v ChR)
    then have "g0 + b0 = 0 \<Longrightarrow> g0 = 0 \<and> b0 = 0" by simp
    then show ?thesis unfolding v ChR by (auto simp: rebalance_values_R)
  next
    case ChG
    from nn [rule_format, of ChR] nn [rule_format, of ChB] have p: "0 \<le> r0" "0 \<le> b0"
      by (simp_all add: v ChG)
    then have "r0 + b0 = 0 \<Longrightarrow> r0 = 0 \<and> b0 = 0" by simp
    then show ?thesis unfolding v ChG by (auto simp: rebalance_values_G)
  next
    case ChB
    from nn [rule_format, of ChR] nn [rule_format, of ChG] have p: "0 \<le> r0" "0 \<le> g0"
      by (simp_all add: v ChB)
    then have "r0 + g0 = 0 \<Longrightarrow> r0 = 0 \<and> g0 = 0" by simp
    then show ?thesis unfolding v ChB by (auto simp: rebalance_values_B)
  qed
qed

lemma fields_type_in:
  "(rEl (type_in s c x), gEl (type_in s c x), bEl (type_in s c x)) = set_out c x (rEl s, gEl s, bEl s)"
  by (cases c) (simp_all add: type_in_def)


lemma publishes_R:
  assumes "0 \<le> g0" "0 \<le> b0" "g0 + b0 \<noteq> 0 \<or> 0 < v"
  shows "\<exists>g b. rebalance_values (r0, g0, b0) ChR v = (Fin (clamp01p v), Fin g, Fin b)"
proof (cases "g0 + b0 = 0")
  case True
  with assms have z: "g0 = 0" "b0 = 0" and v: "0 < v" by simp_all
  from v have "clamp01p v \<noteq> 0" by (simp add: clamp01p_def)
  then show ?thesis unfolding rebalance_values_R z by (simp add: Let_def scale_to_100_def)
next
  case False
  then show ?thesis unfolding rebalance_values_R by simp
qed

lemma publishes_G:
  assumes "0 \<le> r0" "0 \<le> b0" "r0 + b0 \<noteq> 0 \<or> 0 < v"
  shows "\<exists>r b. rebalance_values (r0, g0, b0) ChG v = (Fin r, Fin (clamp01p v), Fin b)"
proof (cases "r0 + b0 = 0")
  case True
  with assms have z: "r0 = 0" "b0 = 0" and v: "0 < v" by simp_all
  from v have "clamp01p v \<noteq> 0" by (simp add: clamp01p_def)
  then show ?thesis unfolding rebalance_values_G z by (simp add: Let_def scale_to_100_def)
next
  case False
  then show ?thesis unfolding rebalance_values_G by simp
qed

lemma publishes_B:
  assumes "0 \<le> r0" "0 \<le> g0" "r0 + g0 \<noteq> 0 \<or> 0 < v"
  shows "\<exists>r g. rebalance_values (r0, g0, b0) ChB v = (Fin r, Fin g, Fin (clamp01p v))"
proof (cases "r0 + g0 = 0")
  case True
  with assms have z: "r0 = 0" "g0 = 0" and v: "0 < v" by simp_all
  from v have "clamp01p v \<noteq> 0" by (simp add: clamp01p_def)
  then show ?thesis unfolding rebalance_values_B z by (simp add: Let_def scale_to_100_def)
next
  case False
  then show ?thesis unfolding rebalance_values_B by simp
qed

lemma rebalance_publishes:
  assumes nn: "\<forall>c'. c' \<noteq> c \<longrightarrow> 0 \<le> val_of (rEl s, gEl s, bEl s) c'"
    and nz: "(\<exists>c'. c' \<noteq> c \<and> val_of (rEl s, gEl s, bEl s) c' \<noteq> 0) \<or> 0 < v"
  shows "\<exists>s'. rebalance s c v = Some s'"
proof (cases c)
  case ChR
  from nn [rule_format, of ChG] nn [rule_format, of ChB] have p: "0 \<le> gEl s" "0 \<le> bEl s"
    by (simp_all add: ChR)
  have "gEl s + bEl s \<noteq> 0 \<or> 0 < v"
  proof (rule disjCI)
    assume "\<not> 0 < v"
    with nz obtain c' where "c' \<noteq> ChR" "val_of (rEl s, gEl s, bEl s) c' \<noteq> 0"
      unfolding ChR by blast
    with p show "gEl s + bEl s \<noteq> 0" by (cases c') simp_all
  qed
  from publishes_R [OF p this, of "rEl s"] show ?thesis
    unfolding ChR rebalance_def by auto
next
  case ChG
  from nn [rule_format, of ChR] nn [rule_format, of ChB] have p: "0 \<le> rEl s" "0 \<le> bEl s"
    by (simp_all add: ChG)
  have "rEl s + bEl s \<noteq> 0 \<or> 0 < v"
  proof (rule disjCI)
    assume "\<not> 0 < v"
    with nz obtain c' where "c' \<noteq> ChG" "val_of (rEl s, gEl s, bEl s) c' \<noteq> 0"
      unfolding ChG by blast
    with p show "rEl s + bEl s \<noteq> 0" by (cases c') simp_all
  qed
  from publishes_G [OF p this, of "gEl s"] show ?thesis
    unfolding ChG rebalance_def by auto
next
  case ChB
  from nn [rule_format, of ChR] nn [rule_format, of ChG] have p: "0 \<le> rEl s" "0 \<le> gEl s"
    by (simp_all add: ChB)
  have "rEl s + gEl s \<noteq> 0 \<or> 0 < v"
  proof (rule disjCI)
    assume "\<not> 0 < v"
    with nz obtain c' where "c' \<noteq> ChB" "val_of (rEl s, gEl s, bEl s) c' \<noteq> 0"
      unfolding ChB by blast
    with p show "rEl s + gEl s \<noteq> 0" by (cases c') simp_all
  qed
  from publishes_B [OF p this, of "bEl s"] show ?thesis
    unfolding ChB rebalance_def by auto
qed

lemma rebalance_values_focus:
  "val_of (rebalance_values vals c v) c = Fin (max 0 (min 100 v))"
proof -
  obtain r0 g0 b0 where v: "vals = (r0, g0, b0)" by (cases vals) auto
  show ?thesis
    unfolding v
    by (cases c)
      (simp_all add: rebalance_values_R rebalance_values_G rebalance_values_B Let_def clamp01p_def)
qed

lemma val_of_setPerc:
  "val_of (getRGB (setPerc r g b)) c = val_of (r, g, b) c / 100"
  "val_of (rEl (setPerc r g b), gEl (setPerc r g b), bEl (setPerc r g b)) c = toFixed2 (val_of (r, g, b) c)"
  by (cases c; simp add: getRGB_def setPerc_def)+

text \<open>
  C4. For all field values, every focus channel and every \<open>v\<close>, the value that
  \<^verbatim>\<open>rebalance\<close> hands to \<^verbatim>\<open>setPerc\<close> for the focus channel is \<open>max 0 (min 100 v)\<close>: the
  rescaling by \<^verbatim>\<open>100/tot\<close> skips the focus channel. In the state that \<^verbatim>\<open>rebalance\<close>
  leaves, the entry of \<^verbatim>\<open>rgb\<close> for the focus channel is that value divided by 100 and
  the field of the focus channel shows it with two decimals. \<^verbatim>\<open>rebalance\<close> does publish
  when the two other fields are not negative and one of them is not zero or \<open>v\<close> is
  positive.
\<close>

theorem rebalance_focus_exact:
  "val_of (rebalance_values vals c v) c = Fin (max 0 (min 100 v)) \<and>
   (\<forall>s s'. rebalance s c v = Some s' \<longrightarrow>
      (\<exists>r g b. rebalance_values (rEl s, gEl s, bEl s) c v = (Fin r, Fin g, Fin b) \<and>
         s' = setPerc r g b \<and> val_of (r, g, b) c = max 0 (min 100 v)) \<and>
      val_of (getRGB s') c = max 0 (min 100 v) / 100 \<and>
      val_of (rEl s', gEl s', bEl s') c = toFixed2 (max 0 (min 100 v))) \<and>
   (\<forall>s. (\<forall>c'. c' \<noteq> c \<longrightarrow> 0 \<le> val_of (rEl s, gEl s, bEl s) c') \<and>
        ((\<exists>c'. c' \<noteq> c \<and> val_of (rEl s, gEl s, bEl s) c' \<noteq> 0) \<or> 0 < v) \<longrightarrow>
      (\<exists>s'. rebalance s c v = Some s'))"
proof (intro conjI allI impI)
  show "val_of (rebalance_values vals c v) c = Fin (max 0 (min 100 v))"
    by (rule rebalance_values_focus)
next
  fix s s' :: state assume r: "rebalance s c v = Some s'"
  from rebalance_Some [OF r] obtain r g b
    where rv: "rebalance_values (rEl s, gEl s, bEl s) c v = (Fin r, Fin g, Fin b)"
      and s': "s' = setPerc r g b" by blast
  have "val_of (Fin r, Fin g, Fin b) c = Fin (val_of (r, g, b) c)" by (cases c) simp_all
  with rebalance_values_focus [of "(rEl s, gEl s, bEl s)" c v] rv
  have f: "val_of (r, g, b) c = max 0 (min 100 v)" by simp
  from rv s' f
  show "\<exists>r g b. rebalance_values (rEl s, gEl s, bEl s) c v = (Fin r, Fin g, Fin b) \<and>
         s' = setPerc r g b \<and> val_of (r, g, b) c = max 0 (min 100 v)" by blast
  show "val_of (getRGB s') c = max 0 (min 100 v) / 100"
    unfolding s' val_of_setPerc f ..
  show "val_of (rEl s', gEl s', bEl s') c = toFixed2 (max 0 (min 100 v))"
    unfolding s' val_of_setPerc f ..
next
  fix s :: state
  assume "(\<forall>c'. c' \<noteq> c \<longrightarrow> 0 \<le> val_of (rEl s, gEl s, bEl s) c') \<and>
        ((\<exists>c'. c' \<noteq> c \<and> val_of (rEl s, gEl s, bEl s) c' \<noteq> 0) \<or> 0 < v)"
  then show "\<exists>s'. rebalance s c v = Some s'"
    using rebalance_publishes [of c s v] by blast
qed


theorem rebalance_focus_exact_witness:
  "on_input init_state ChR (33337 / 1000) = Some (setPerc (33337 / 1000) (66663 / 2000) (66663 / 2000)) \<and>
   val_of (getRGB (setPerc (33337 / 1000) (66663 / 2000) (66663 / 2000))) ChR = 33337 / 100000 \<and>
   rEl (setPerc (33337 / 1000) (66663 / 2000) (66663 / 2000)) = 1667 / 50 \<and>
   val_of (rebalance_values (3333 / 100, 3333 / 100, 3333 / 100) ChR 150) ChR = Fin 100 \<and>
   (\<exists>s'. rebalance init_state ChG (- 5) = Some s')"
proof -
  let ?s = "type_in init_state ChR (33337 / 1000)"
  let ?s' = "setPerc (33337 / 1000) (66663 / 2000) (66663 / 2000)"
  have f: "rEl ?s = 33337 / 1000" "gEl ?s = 3333 / 100" "bEl ?s = 3333 / 100"
    by (simp_all add: type_in_def init_state_def setPerc_def toFixed2_def)
  have r: "rebalance ?s ChR (33337 / 1000) = Some ?s'"
    unfolding rebalance_def f by (simp add: rebalance_values_R clamp01p_def)
  note t = rebalance_focus_exact [of "(rEl ?s, gEl ?s, bEl ?s)" ChR "33337 / 1000"]
  from t r have a: "val_of (getRGB ?s') ChR = max 0 (min 100 (33337 / 1000)) / 100"
    and b: "val_of (rEl ?s', gEl ?s', bEl ?s') ChR = toFixed2 (max 0 (min 100 (33337 / 1000)))"
    by blast+
  have i: "rEl init_state = 3333 / 100" "gEl init_state = 3333 / 100" "bEl init_state = 3333 / 100"
    by (simp_all add: init_state_def setPerc_def toFixed2_def)
  have c: "val_of (rebalance_values (3333 / 100, 3333 / 100, 3333 / 100) ChR 150) ChR = Fin 100"
    using rebalance_focus_exact [of "(3333 / 100, 3333 / 100, 3333 / 100)" ChR 150] by simp
  have nn: "\<forall>c'. c' \<noteq> ChG \<longrightarrow> 0 \<le> val_of (rEl init_state, gEl init_state, bEl init_state) c'"
  proof (intro allI impI)
    fix c' assume "c' \<noteq> ChG"
    then show "0 \<le> val_of (rEl init_state, gEl init_state, bEl init_state) c'"
      unfolding i by (cases c') simp_all
  qed
  have nz: "\<exists>c'. c' \<noteq> ChG \<and> val_of (rEl init_state, gEl init_state, bEl init_state) c' \<noteq> 0"
    unfolding i by (rule exI [of _ ChR]) simp
  from rebalance_focus_exact [of "(0, 0, 0)" ChG "- 5"] nn nz
  have d: "\<exists>s'. rebalance init_state ChG (- 5) = Some s'" by blast
  have e: "toFixed2 (33337 / 1000) = 1667 / 50" by (simp add: toFixed2_def)
  from a b r c d show ?thesis
    by (simp add: on_input_def e)
qed

lemma toFixed2_simps:
  "toFixed2 0 = 0" "toFixed2 1 = 1" "toFixed2 20 = 20" "toFixed2 25 = 25" "toFixed2 33 = 33"
  "toFixed2 50 = 50" "toFixed2 60 = 60" "toFixed2 66 = 66" "toFixed2 100 = 100"
  "toFixed2 (333333 / 10000) = 3333 / 100"
  "toFixed2 (3300 / 67) = 197 / 4" "toFixed2 (50 / 67) = 3 / 4"
  "toFixed2 (197 / 4) = 197 / 4" "toFixed2 (3 / 4) = 3 / 4"
  by (simp_all add: toFixed2_def)

lemma toFixed2_near:
  assumes "0 \<le> x" "x \<le> 100"
  shows "0 \<le> toFixed2 x" "\<bar>toFixed2 x - x\<bar> \<le> 1 / 200"
proof -
  define F :: real where "F = of_int \<lfloor>x * 100 + 1 / 2\<rfloor>"
  have e: "toFixed2 x = F / 100"
    using assms by (simp add: toFixed2_def F_def)
  have lo: "F \<le> x * 100 + 1 / 2" unfolding F_def by (rule of_int_floor_le)
  have hi: "x * 100 + 1 / 2 < F + 1" unfolding F_def by linarith
  have "0 \<le> \<lfloor>x * 100 + 1 / 2\<rfloor>" using assms(1) by simp
  then have "0 \<le> F" unfolding F_def by simp
  then show "0 \<le> toFixed2 x" unfolding e by simp
  have "F / 100 - x \<le> 1 / 200" "- (1 / 200) \<le> F / 100 - x" using lo hi by linarith+
  then show "\<bar>toFixed2 x - x\<bar> \<le> 1 / 200" unfolding e by (simp only: abs_le_iff) simp
qed

lemma stable_share:
  fixes G B g b n d :: real
  assumes G: "0 \<le> G" and B: "0 \<le> B" and S: "G + B \<noteq> 0" and n: "g + b = n"
    and eg: "\<bar>G - g\<bar> \<le> d" and eb: "\<bar>B - b\<bar> \<le> d"
  shows "\<bar>G * n / (G + B) - g\<bar> \<le> d"
proof -
  have pos: "0 < G + B" using G B S by simp
  have "G * n / (G + B) - g = (G * n - g * (G + B)) / (G + B)"
    using pos by (simp add: diff_divide_distrib)
  also have "G * n - g * (G + B) = (G - g) * B - (B - b) * G"
    unfolding n [symmetric] by (simp add: algebra_simps)
  finally have e: "G * n / (G + B) - g = ((G - g) * B - (B - b) * G) / (G + B)" .
  have "\<bar>(G - g) * B - (B - b) * G\<bar> \<le> \<bar>(G - g) * B\<bar> + \<bar>(B - b) * G\<bar>"
    by (rule abs_triangle_ineq4)
  also have "\<dots> = \<bar>G - g\<bar> * B + \<bar>B - b\<bar> * G" using G B by (simp add: abs_mult)
  also have "\<dots> \<le> d * B + d * G"
    using eg eb G B by (intro add_mono mult_right_mono)
  also have "\<dots> = d * (G + B)" by (simp add: algebra_simps)
  finally have "\<bar>(G - g) * B - (B - b) * G\<bar> / (G + B) \<le> d"
    using pos by (simp add: pos_divide_le_eq)
  then show ?thesis unfolding e using pos by simp
qed


lemma first_R:
  assumes g0: "0 \<le> g0" and b0: "0 \<le> b0"
    and r: "rebalance_values (r0, g0, b0) ChR v = (Fin r, Fin g, Fin b)"
  shows "r = clamp01p v \<and> 0 \<le> g \<and> 0 \<le> b \<and> g \<le> 100 \<and> b \<le> 100 \<and>
         (g + b = 100 - clamp01p v \<or> g = 0 \<and> b = 0 \<and> clamp01p v \<noteq> 0)"
proof (cases "g0 + b0 = 0")
  case True
  with g0 b0 have z: "g0 = 0" "b0 = 0" by simp_all
  from r show ?thesis
    unfolding rebalance_values_R z
    by (auto simp: Let_def scale_to_100_def split: if_splits)
next
  case False
  let ?n = "100 - clamp01p v"
  from r False have e: "r = clamp01p v" "g = g0 * ?n / (g0 + b0)" "b = b0 * ?n / (g0 + b0)"
    unfolding rebalance_values_R by auto
  have s: "g + b = ?n" unfolding e using shares_sum [OF False] by simp
  have p: "0 \<le> g" "0 \<le> b"
    unfolding e using share_nonneg [OF g0 b0 clamp01p_range(3)]
      share_nonneg [OF b0 g0 clamp01p_range(3), of v] by (simp_all add: add.commute)
  from s p clamp01p_range(1) [of v] have "g \<le> 100" "b \<le> 100" by linarith+
  with e(1) s p show ?thesis by simp
qed

lemma near_R:
  assumes a: "0 \<le> a" and c: "0 \<le> c"
    and first: "a + c = 100 - clamp01p v \<or> a = 0 \<and> c = 0 \<and> clamp01p v \<noteq> 0"
    and A: "0 \<le> A" and C: "0 \<le> C"
    and ea: "\<bar>A - a\<bar> \<le> d" and ec: "\<bar>C - c\<bar> \<le> d" and d: "d < 50"
    and za: "a = 0 \<longrightarrow> A = 0" and zc: "c = 0 \<longrightarrow> C = 0"
  shows "\<exists>a2 c2. rebalance_values (x, A, C) ChR v = (Fin (clamp01p v), Fin a2, Fin c2) \<and>
           \<bar>a2 - a\<bar> \<le> d \<and> \<bar>c2 - c\<bar> \<le> d"
proof (cases "A + C = 0")
  case True
  with A C have z: "A = 0" "C = 0" by simp_all
  have n0: "clamp01p v \<noteq> 0"
  proof
    assume "clamp01p v = 0"
    with first have "a + c = 100" by auto
    moreover from ea ec z have "a \<le> d" "c \<le> d" by simp_all
    ultimately show False using d by linarith
  qed
  have "rebalance_values (x, A, C) ChR v = (Fin (clamp01p v), Fin 0, Fin 0)"
    unfolding rebalance_values_R z using n0 by (simp add: Let_def scale_to_100_def)
  moreover have "\<bar>0 - a\<bar> \<le> d" "\<bar>0 - c\<bar> \<le> d" using ea ec z by simp_all
  ultimately show ?thesis by blast
next
  case False
  let ?n = "100 - clamp01p v"
  have s: "a + c = ?n"
  proof (rule ccontr)
    assume "a + c \<noteq> ?n"
    with first have "a = 0" "c = 0" by auto
    with za zc have "A = 0" "C = 0" by simp_all
    with False show False by simp
  qed
  have s': "c + a = ?n" using s by simp
  have "rebalance_values (x, A, C) ChR v = (Fin (clamp01p v), Fin (A * ?n / (A + C)), Fin (C * ?n / (A + C)))"
    unfolding rebalance_values_R using False by simp
  moreover have "\<bar>A * ?n / (A + C) - a\<bar> \<le> d"
    by (rule stable_share [OF A C False s ea ec])
  moreover have "\<bar>C * ?n / (A + C) - c\<bar> \<le> d"
    using stable_share [OF C A _ s' ec ea] False by (simp add: add.commute)
  ultimately show ?thesis by blast
qed

lemma first_G:
  assumes r0: "0 \<le> r0" and b0: "0 \<le> b0"
    and r: "rebalance_values (r0, g0, b0) ChG v = (Fin r, Fin g, Fin b)"
  shows "g = clamp01p v \<and> 0 \<le> r \<and> 0 \<le> b \<and> r \<le> 100 \<and> b \<le> 100 \<and>
         (r + b = 100 - clamp01p v \<or> r = 0 \<and> b = 0 \<and> clamp01p v \<noteq> 0)"
proof (cases "r0 + b0 = 0")
  case True
  with r0 b0 have z: "r0 = 0" "b0 = 0" by simp_all
  from r show ?thesis
    unfolding rebalance_values_G z
    by (auto simp: Let_def scale_to_100_def split: if_splits)
next
  case False
  let ?n = "100 - clamp01p v"
  from r False have e: "g = clamp01p v" "r = r0 * ?n / (r0 + b0)" "b = b0 * ?n / (r0 + b0)"
    unfolding rebalance_values_G by auto
  have s: "r + b = ?n" unfolding e using shares_sum [OF False] by simp
  have p: "0 \<le> r" "0 \<le> b"
    unfolding e using share_nonneg [OF r0 b0 clamp01p_range(3)]
      share_nonneg [OF b0 r0 clamp01p_range(3), of v] by (simp_all add: add.commute)
  from s p clamp01p_range(1) [of v] have "r \<le> 100" "b \<le> 100" by linarith+
  with e(1) s p show ?thesis by simp
qed

lemma near_G:
  assumes a: "0 \<le> a" and c: "0 \<le> c"
    and first: "a + c = 100 - clamp01p v \<or> a = 0 \<and> c = 0 \<and> clamp01p v \<noteq> 0"
    and A: "0 \<le> A" and C: "0 \<le> C"
    and ea: "\<bar>A - a\<bar> \<le> d" and ec: "\<bar>C - c\<bar> \<le> d" and d: "d < 50"
    and za: "a = 0 \<longrightarrow> A = 0" and zc: "c = 0 \<longrightarrow> C = 0"
  shows "\<exists>a2 c2. rebalance_values (A, x, C) ChG v = (Fin a2, Fin (clamp01p v), Fin c2) \<and>
           \<bar>a2 - a\<bar> \<le> d \<and> \<bar>c2 - c\<bar> \<le> d"
proof (cases "A + C = 0")
  case True
  with A C have z: "A = 0" "C = 0" by simp_all
  have n0: "clamp01p v \<noteq> 0"
  proof
    assume "clamp01p v = 0"
    with first have "a + c = 100" by auto
    moreover from ea ec z have "a \<le> d" "c \<le> d" by simp_all
    ultimately show False using d by linarith
  qed
  have "rebalance_values (A, x, C) ChG v = (Fin 0, Fin (clamp01p v), Fin 0)"
    unfolding rebalance_values_G z using n0 by (simp add: Let_def scale_to_100_def)
  moreover have "\<bar>0 - a\<bar> \<le> d" "\<bar>0 - c\<bar> \<le> d" using ea ec z by simp_all
  ultimately show ?thesis by blast
next
  case False
  let ?n = "100 - clamp01p v"
  have s: "a + c = ?n"
  proof (rule ccontr)
    assume "a + c \<noteq> ?n"
    with first have "a = 0" "c = 0" by auto
    with za zc have "A = 0" "C = 0" by simp_all
    with False show False by simp
  qed
  have s': "c + a = ?n" using s by simp
  have "rebalance_values (A, x, C) ChG v = (Fin (A * ?n / (A + C)), Fin (clamp01p v), Fin (C * ?n / (A + C)))"
    unfolding rebalance_values_G using False by simp
  moreover have "\<bar>A * ?n / (A + C) - a\<bar> \<le> d"
    by (rule stable_share [OF A C False s ea ec])
  moreover have "\<bar>C * ?n / (A + C) - c\<bar> \<le> d"
    using stable_share [OF C A _ s' ec ea] False by (simp add: add.commute)
  ultimately show ?thesis by blast
qed

lemma first_B:
  assumes r0: "0 \<le> r0" and g0: "0 \<le> g0"
    and r: "rebalance_values (r0, g0, b0) ChB v = (Fin r, Fin g, Fin b)"
  shows "b = clamp01p v \<and> 0 \<le> r \<and> 0 \<le> g \<and> r \<le> 100 \<and> g \<le> 100 \<and>
         (r + g = 100 - clamp01p v \<or> r = 0 \<and> g = 0 \<and> clamp01p v \<noteq> 0)"
proof (cases "r0 + g0 = 0")
  case True
  with r0 g0 have z: "r0 = 0" "g0 = 0" by simp_all
  from r show ?thesis
    unfolding rebalance_values_B z
    by (auto simp: Let_def scale_to_100_def split: if_splits)
next
  case False
  let ?n = "100 - clamp01p v"
  from r False have e: "b = clamp01p v" "r = r0 * ?n / (r0 + g0)" "g = g0 * ?n / (r0 + g0)"
    unfolding rebalance_values_B by auto
  have s: "r + g = ?n" unfolding e using shares_sum [OF False] by simp
  have p: "0 \<le> r" "0 \<le> g"
    unfolding e using share_nonneg [OF r0 g0 clamp01p_range(3)]
      share_nonneg [OF g0 r0 clamp01p_range(3), of v] by (simp_all add: add.commute)
  from s p clamp01p_range(1) [of v] have "r \<le> 100" "g \<le> 100" by linarith+
  with e(1) s p show ?thesis by simp
qed

lemma near_B:
  assumes a: "0 \<le> a" and c: "0 \<le> c"
    and first: "a + c = 100 - clamp01p v \<or> a = 0 \<and> c = 0 \<and> clamp01p v \<noteq> 0"
    and A: "0 \<le> A" and C: "0 \<le> C"
    and ea: "\<bar>A - a\<bar> \<le> d" and ec: "\<bar>C - c\<bar> \<le> d" and d: "d < 50"
    and za: "a = 0 \<longrightarrow> A = 0" and zc: "c = 0 \<longrightarrow> C = 0"
  shows "\<exists>a2 c2. rebalance_values (A, C, x) ChB v = (Fin a2, Fin c2, Fin (clamp01p v)) \<and>
           \<bar>a2 - a\<bar> \<le> d \<and> \<bar>c2 - c\<bar> \<le> d"
proof (cases "A + C = 0")
  case True
  with A C have z: "A = 0" "C = 0" by simp_all
  have n0: "clamp01p v \<noteq> 0"
  proof
    assume "clamp01p v = 0"
    with first have "a + c = 100" by auto
    moreover from ea ec z have "a \<le> d" "c \<le> d" by simp_all
    ultimately show False using d by linarith
  qed
  have "rebalance_values (A, C, x) ChB v = (Fin 0, Fin 0, Fin (clamp01p v))"
    unfolding rebalance_values_B z using n0 by (simp add: Let_def scale_to_100_def)
  moreover have "\<bar>0 - a\<bar> \<le> d" "\<bar>0 - c\<bar> \<le> d" using ea ec z by simp_all
  ultimately show ?thesis by blast
next
  case False
  let ?n = "100 - clamp01p v"
  have s: "a + c = ?n"
  proof (rule ccontr)
    assume "a + c \<noteq> ?n"
    with first have "a = 0" "c = 0" by auto
    with za zc have "A = 0" "C = 0" by simp_all
    with False show False by simp
  qed
  have s': "c + a = ?n" using s by simp
  have "rebalance_values (A, C, x) ChB v = (Fin (A * ?n / (A + C)), Fin (C * ?n / (A + C)), Fin (clamp01p v))"
    unfolding rebalance_values_B using False by simp
  moreover have "\<bar>A * ?n / (A + C) - a\<bar> \<le> d"
    by (rule stable_share [OF A C False s ea ec])
  moreover have "\<bar>C * ?n / (A + C) - c\<bar> \<le> d"
    using stable_share [OF C A _ s' ec ea] False by (simp add: add.commute)
  ultimately show ?thesis by blast
qed

lemma hundredth:
  fixes x y :: real
  assumes "\<bar>x - y\<bar> \<le> 1 / 200"
  shows "\<bar>x / 100 - y / 100\<bar> < 1 / 10000"
  using assms by arith

lemma second_call:
  assumes nn: "\<forall>c'. c' \<noteq> c \<longrightarrow> 0 \<le> val_of vals c'"
    and rv: "rebalance_values vals c v = (Fin r, Fin g, Fin b)"
  shows "(\<exists>r2 g2 b2. rebalance_values (toFixed2 r, toFixed2 g, toFixed2 b) c v = (Fin r2, Fin g2, Fin b2) \<and>
           val_of (r2, g2, b2) c = val_of (r, g, b) c \<and>
           \<bar>r2 - r\<bar> \<le> 1 / 200 \<and> \<bar>g2 - g\<bar> \<le> 1 / 200 \<and> \<bar>b2 - b\<bar> \<le> 1 / 200) \<and>
         (\<forall>c'. c' \<noteq> c \<longrightarrow> 0 \<le> val_of (toFixed2 r, toFixed2 g, toFixed2 b) c')"
proof -
  obtain r0 g0 b0 where v: "vals = (r0, g0, b0)" by (cases vals) auto
  show ?thesis
  proof (cases c)
  case ChR
  from nn [rule_format, of ChG] nn [rule_format, of ChB] have p: "0 \<le> g0" "0 \<le> b0"
    by (simp_all add: v ChR)
  from first_R [OF p rv [unfolded v ChR]]
  have f: "r = clamp01p v" and q: "0 \<le> g" "0 \<le> b" "g \<le> 100" "b \<le> 100"
    and d: "g + b = 100 - clamp01p v \<or> g = 0 \<and> b = 0 \<and> clamp01p v \<noteq> 0"
    by blast+
  note ta = toFixed2_near [OF q(1) q(3)] and tc = toFixed2_near [OF q(2) q(4)]
  have z: "g = 0 \<longrightarrow> toFixed2 g = 0" "b = 0 \<longrightarrow> toFixed2 b = 0"
    by (simp_all add: toFixed2_def)
  from near_R [OF q(1) q(2) d ta(1) tc(1) ta(2) tc(2) _ z, of "toFixed2 r"]
  obtain a2 c2 where n: "rebalance_values (toFixed2 r, toFixed2 g, toFixed2 b) ChR v = (Fin (clamp01p v), Fin a2, Fin c2)"
    "\<bar>a2 - g\<bar> \<le> 1 / 200" "\<bar>c2 - b\<bar> \<le> 1 / 200" by auto
  show ?thesis
  proof (intro conjI)
    show "\<exists>r2 g2 b2. rebalance_values (toFixed2 r, toFixed2 g, toFixed2 b) c v = (Fin r2, Fin g2, Fin b2) \<and>
           val_of (r2, g2, b2) c = val_of (r, g, b) c \<and>
           \<bar>r2 - r\<bar> \<le> 1 / 200 \<and> \<bar>g2 - g\<bar> \<le> 1 / 200 \<and> \<bar>b2 - b\<bar> \<le> 1 / 200"
      unfolding ChR using n f by auto
    show "\<forall>c'. c' \<noteq> c \<longrightarrow> 0 \<le> val_of (toFixed2 r, toFixed2 g, toFixed2 b) c'"
      unfolding ChR using ta(1) tc(1) by (intro allI impI, case_tac c') simp_all
  qed
  next
  case ChG
  from nn [rule_format, of ChR] nn [rule_format, of ChB] have p: "0 \<le> r0" "0 \<le> b0"
    by (simp_all add: v ChG)
  from first_G [OF p rv [unfolded v ChG]]
  have f: "g = clamp01p v" and q: "0 \<le> r" "0 \<le> b" "r \<le> 100" "b \<le> 100"
    and d: "r + b = 100 - clamp01p v \<or> r = 0 \<and> b = 0 \<and> clamp01p v \<noteq> 0"
    by blast+
  note ta = toFixed2_near [OF q(1) q(3)] and tc = toFixed2_near [OF q(2) q(4)]
  have z: "r = 0 \<longrightarrow> toFixed2 r = 0" "b = 0 \<longrightarrow> toFixed2 b = 0"
    by (simp_all add: toFixed2_def)
  from near_G [OF q(1) q(2) d ta(1) tc(1) ta(2) tc(2) _ z, of "toFixed2 g"]
  obtain a2 c2 where n: "rebalance_values (toFixed2 r, toFixed2 g, toFixed2 b) ChG v = (Fin a2, Fin (clamp01p v), Fin c2)"
    "\<bar>a2 - r\<bar> \<le> 1 / 200" "\<bar>c2 - b\<bar> \<le> 1 / 200" by auto
  show ?thesis
  proof (intro conjI)
    show "\<exists>r2 g2 b2. rebalance_values (toFixed2 r, toFixed2 g, toFixed2 b) c v = (Fin r2, Fin g2, Fin b2) \<and>
           val_of (r2, g2, b2) c = val_of (r, g, b) c \<and>
           \<bar>r2 - r\<bar> \<le> 1 / 200 \<and> \<bar>g2 - g\<bar> \<le> 1 / 200 \<and> \<bar>b2 - b\<bar> \<le> 1 / 200"
      unfolding ChG using n f by auto
    show "\<forall>c'. c' \<noteq> c \<longrightarrow> 0 \<le> val_of (toFixed2 r, toFixed2 g, toFixed2 b) c'"
      unfolding ChG using ta(1) tc(1) by (intro allI impI, case_tac c') simp_all
  qed
  next
  case ChB
  from nn [rule_format, of ChR] nn [rule_format, of ChG] have p: "0 \<le> r0" "0 \<le> g0"
    by (simp_all add: v ChB)
  from first_B [OF p rv [unfolded v ChB]]
  have f: "b = clamp01p v" and q: "0 \<le> r" "0 \<le> g" "r \<le> 100" "g \<le> 100"
    and d: "r + g = 100 - clamp01p v \<or> r = 0 \<and> g = 0 \<and> clamp01p v \<noteq> 0"
    by blast+
  note ta = toFixed2_near [OF q(1) q(3)] and tc = toFixed2_near [OF q(2) q(4)]
  have z: "r = 0 \<longrightarrow> toFixed2 r = 0" "g = 0 \<longrightarrow> toFixed2 g = 0"
    by (simp_all add: toFixed2_def)
  from near_B [OF q(1) q(2) d ta(1) tc(1) ta(2) tc(2) _ z, of "toFixed2 b"]
  obtain a2 c2 where n: "rebalance_values (toFixed2 r, toFixed2 g, toFixed2 b) ChB v = (Fin a2, Fin c2, Fin (clamp01p v))"
    "\<bar>a2 - r\<bar> \<le> 1 / 200" "\<bar>c2 - g\<bar> \<le> 1 / 200" by auto
  show ?thesis
  proof (intro conjI)
    show "\<exists>r2 g2 b2. rebalance_values (toFixed2 r, toFixed2 g, toFixed2 b) c v = (Fin r2, Fin g2, Fin b2) \<and>
           val_of (r2, g2, b2) c = val_of (r, g, b) c \<and>
           \<bar>r2 - r\<bar> \<le> 1 / 200 \<and> \<bar>g2 - g\<bar> \<le> 1 / 200 \<and> \<bar>b2 - b\<bar> \<le> 1 / 200"
      unfolding ChB using n f by auto
    show "\<forall>c'. c' \<noteq> c \<longrightarrow> 0 \<le> val_of (toFixed2 r, toFixed2 g, toFixed2 b) c'"
      unfolding ChB using ta(1) tc(1) by (intro allI impI, case_tac c') simp_all
  qed
  qed
qed

text \<open>
  C9, as the code has it. \<^verbatim>\<open>rebalance\<close> reads the fields, which hold the published
  values rounded to two decimals, so a repeated edit computes from the rounded values.
  When the two fields other than the focus were not negative, the second call with the
  same channel and value, and likewise typing the value once more, publishes again: the
  focus channel keeps its value, and every entry of \<^verbatim>\<open>getRGB\<close> moves by less than
  \<open>0.0001\<close>, that is by less than \<open>0.01\<close> of the percentages. In exact arithmetic the
  distance is at most \<open>0.00005\<close>; the bound stated is twice that, far above the rounding
  of doubles.
\<close>

theorem rebalance_nearly_idempotent:
  assumes nn: "\<forall>c'. c' \<noteq> c \<longrightarrow> 0 \<le> val_of (rEl s, gEl s, bEl s) c'"
    and r1: "rebalance s c v = Some s1"
  shows "\<exists>s2. rebalance s1 c v = Some s2 \<and> on_input s1 c v = Some s2 \<and>
           val_of (getRGB s2) c = val_of (getRGB s1) c \<and>
           (\<forall>c'. \<bar>val_of (getRGB s2) c' - val_of (getRGB s1) c'\<bar> < 1 / 10000)"
proof -
  from rebalance_Some [OF r1] obtain r g b
    where rv: "rebalance_values (rEl s, gEl s, bEl s) c v = (Fin r, Fin g, Fin b)"
      and s1: "s1 = setPerc r g b" by blast
  have f: "rEl s1 = toFixed2 r" "gEl s1 = toFixed2 g" "bEl s1 = toFixed2 b"
    unfolding s1 by (simp_all add: setPerc_def)
  from second_call [OF nn rv] obtain r2 g2 b2
    where n: "rebalance_values (toFixed2 r, toFixed2 g, toFixed2 b) c v = (Fin r2, Fin g2, Fin b2)"
      and k: "val_of (r2, g2, b2) c = val_of (r, g, b) c"
      and e: "\<bar>r2 - r\<bar> \<le> 1 / 200" "\<bar>g2 - g\<bar> \<le> 1 / 200" "\<bar>b2 - b\<bar> \<le> 1 / 200"
      and p: "\<forall>c'. c' \<noteq> c \<longrightarrow> 0 \<le> val_of (toFixed2 r, toFixed2 g, toFixed2 b) c'"
    by blast
  have t: "rebalance_values (set_out c v (toFixed2 r, toFixed2 g, toFixed2 b)) c v = (Fin r2, Fin g2, Fin b2)"
    using focus_irrelevant [OF p, of v v] n by simp
  have a: "rebalance s1 c v = Some (setPerc r2 g2 b2)"
    unfolding rebalance_def f n by simp
  have b: "on_input s1 c v = Some (setPerc r2 g2 b2)"
    unfolding on_input_def rebalance_def fields_type_in f t by simp
  have c: "val_of (getRGB (setPerc r2 g2 b2)) c = val_of (getRGB s1) c"
    unfolding s1 val_of_setPerc k ..
  have d: "\<bar>val_of (getRGB (setPerc r2 g2 b2)) c' - val_of (getRGB s1) c'\<bar> < 1 / 10000" for c'
    unfolding s1 using hundredth [OF e(1)] hundredth [OF e(2)] hundredth [OF e(3)]
    by (cases c') (simp_all add: getRGB_def setPerc_def)
  from a b c d show ?thesis by blast
qed

theorem rebalance_nearly_idempotent_witness:
  "rebalance (type_in (setPerc 66 1 33) ChB 50) ChB 50 = Some (setPerc (3300 / 67) (50 / 67) 50) \<and>
   rebalance (setPerc (3300 / 67) (50 / 67) 50) ChB 50 = Some (setPerc (197 / 4) (3 / 4) 50) \<and>
   on_input (setPerc (3300 / 67) (50 / 67) 50) ChB 50 = Some (setPerc (197 / 4) (3 / 4) 50) \<and>
   val_of (getRGB (setPerc (197 / 4) (3 / 4) 50)) ChB = val_of (getRGB (setPerc (3300 / 67) (50 / 67) 50)) ChB \<and>
   \<bar>val_of (getRGB (setPerc (197 / 4) (3 / 4) 50)) ChR - val_of (getRGB (setPerc (3300 / 67) (50 / 67) 50)) ChR\<bar>
     < 1 / 10000 \<and>
   \<bar>val_of (getRGB (setPerc (197 / 4) (3 / 4) 50)) ChG - val_of (getRGB (setPerc (3300 / 67) (50 / 67) 50)) ChG\<bar>
     < 1 / 10000"
proof -
  let ?s = "type_in (setPerc 66 1 33) ChB 50"
  let ?s1 = "setPerc (3300 / 67) (50 / 67) 50"
  let ?s2 = "setPerc (197 / 4) (3 / 4) 50"
  have f: "rEl ?s = 66" "gEl ?s = 1" "bEl ?s = 50"
    by (simp_all add: type_in_def setPerc_def toFixed2_simps)
  have nn: "\<forall>c'. c' \<noteq> ChB \<longrightarrow> 0 \<le> val_of (rEl ?s, gEl ?s, bEl ?s) c'"
  proof (intro allI impI)
    fix c' assume "c' \<noteq> ChB"
    then show "0 \<le> val_of (rEl ?s, gEl ?s, bEl ?s) c'" unfolding f by (cases c') simp_all
  qed
  have r1: "rebalance ?s ChB 50 = Some ?s1"
    unfolding rebalance_def f by (simp add: rebalance_values_B clamp01p_def)
  have r2: "rebalance ?s1 ChB 50 = Some ?s2"
    by (simp add: rebalance_def setPerc_def toFixed2_simps rebalance_values_B clamp01p_def)
  from rebalance_nearly_idempotent [OF nn r1] obtain s2
    where s2: "rebalance ?s1 ChB 50 = Some s2" "on_input ?s1 ChB 50 = Some s2"
      "val_of (getRGB s2) ChB = val_of (getRGB ?s1) ChB"
      "\<forall>c'. \<bar>val_of (getRGB s2) c' - val_of (getRGB ?s1) c'\<bar> < 1 / 10000"
    by blast
  from s2(1) r2 have e: "s2 = ?s2" by simp
  from r1 s2 [unfolded e] show ?thesis by blast
qed

text \<open>
  The claim C9 as it is written fails. From the start of a session, typing 50 into R,
  1 into G and 50 into B publishes \<open>(3300/67, 50/67, 50)\<close> and leaves the fields at
  \<open>49.25, 0.75, 50.00\<close>; the same edit of B once more publishes \<open>(49.25, 0.75, 50)\<close>,
  another vector.
\<close>

theorem rebalance_not_idempotent_counterexample:
  "on_input init_state ChR 50 = Some (setPerc 50 25 25) \<and>
   on_input (setPerc 50 25 25) ChG 1 = Some (setPerc 66 1 33) \<and>
   on_input (setPerc 66 1 33) ChB 50 = Some (setPerc (3300 / 67) (50 / 67) 50) \<and>
   rebalance (setPerc (3300 / 67) (50 / 67) 50) ChB 50 = Some (setPerc (197 / 4) (3 / 4) 50) \<and>
   on_input (setPerc (3300 / 67) (50 / 67) 50) ChB 50 = Some (setPerc (197 / 4) (3 / 4) 50) \<and>
   getRGB (setPerc (3300 / 67) (50 / 67) 50) = (33 / 67, 1 / 134, 1 / 2) \<and>
   getRGB (setPerc (197 / 4) (3 / 4) 50) = (197 / 400, 3 / 400, 1 / 2) \<and>
   setPerc (197 / 4) (3 / 4) 50 \<noteq> setPerc (3300 / 67) (50 / 67) 50"
  by (simp add: on_input_def type_in_def init_state_def rebalance_def setPerc_def getRGB_def
      toFixed2_simps rebalance_values_R rebalance_values_G rebalance_values_B clamp01p_def)

text \<open>
  What \<^verbatim>\<open>rebalance\<close> does keep: when the two fields other than the focus are not
  negative and not both zero, the three published values are finite, not negative and
  sum to 100.
\<close>

lemma sum_R:
  assumes g0: "0 \<le> g0" and b0: "0 \<le> b0" and n: "g0 + b0 \<noteq> 0"
  shows "\<exists>r g b. rebalance_values (r0, g0, b0) ChR v = (Fin r, Fin g, Fin b) \<and> r + g + b = 100 \<and>
           0 \<le> r \<and> 0 \<le> g \<and> 0 \<le> b"
proof -
  let ?n = "100 - clamp01p v"
  have "clamp01p v + g0 * ?n / (g0 + b0) + b0 * ?n / (g0 + b0) = 100"
    using shares_sum [OF n, of ?n] by simp
  moreover have "0 \<le> g0 * ?n / (g0 + b0)" "0 \<le> b0 * ?n / (g0 + b0)"
    using share_nonneg [OF g0 b0 clamp01p_range(3)] share_nonneg [OF b0 g0 clamp01p_range(3), of v]
    by (simp_all add: add.commute)
  ultimately show ?thesis
    unfolding rebalance_values_R using n clamp01p_range(1) [of v] by simp
qed

lemma sum_G:
  assumes r0: "0 \<le> r0" and b0: "0 \<le> b0" and n: "r0 + b0 \<noteq> 0"
  shows "\<exists>r g b. rebalance_values (r0, g0, b0) ChG v = (Fin r, Fin g, Fin b) \<and> r + g + b = 100 \<and>
           0 \<le> r \<and> 0 \<le> g \<and> 0 \<le> b"
proof -
  let ?n = "100 - clamp01p v"
  have "r0 * ?n / (r0 + b0) + clamp01p v + b0 * ?n / (r0 + b0) = 100"
    using shares_sum [OF n, of ?n] by simp
  moreover have "0 \<le> r0 * ?n / (r0 + b0)" "0 \<le> b0 * ?n / (r0 + b0)"
    using share_nonneg [OF r0 b0 clamp01p_range(3)] share_nonneg [OF b0 r0 clamp01p_range(3), of v]
    by (simp_all add: add.commute)
  ultimately show ?thesis
    unfolding rebalance_values_G using n clamp01p_range(1) [of v] by simp
qed

lemma sum_B:
  assumes r0: "0 \<le> r0" and g0: "0 \<le> g0" and n: "r0 + g0 \<noteq> 0"
  shows "\<exists>r g b. rebalance_values (r0, g0, b0) ChB v = (Fin r, Fin g, Fin b) \<and> r + g + b = 100 \<and>
           0 \<le> r \<and> 0 \<le> g \<and> 0 \<le> b"
proof -
  let ?n = "100 - clamp01p v"
  have "r0 * ?n / (r0 + g0) + g0 * ?n / (r0 + g0) + clamp01p v = 100"
    using shares_sum [OF n, of ?n] by simp
  moreover have "0 \<le> r0 * ?n / (r0 + g0)" "0 \<le> g0 * ?n / (r0 + g0)"
    using share_nonneg [OF r0 g0 clamp01p_range(3)] share_nonneg [OF g0 r0 clamp01p_range(3), of v]
    by (simp_all add: add.commute)
  ultimately show ?thesis
    unfolding rebalance_values_B using n clamp01p_range(1) [of v] by simp
qed

lemma rebalance_values_sum_100:
  assumes nn: "\<forall>c'. c' \<noteq> c \<longrightarrow> 0 \<le> val_of vals c'"
    and nz: "\<exists>c'. c' \<noteq> c \<and> val_of vals c' \<noteq> 0"
  shows "\<exists>r g b. rebalance_values vals c v = (Fin r, Fin g, Fin b) \<and> r + g + b = 100 \<and>
           0 \<le> r \<and> 0 \<le> g \<and> 0 \<le> b"
proof -
  obtain r0 g0 b0 where v: "vals = (r0, g0, b0)" by (cases vals) auto
  from nz obtain c' where c': "c' \<noteq> c" "val_of vals c' \<noteq> 0" by blast
  show ?thesis
  proof (cases c)
    case ChR
    from nn [rule_format, of ChG] nn [rule_format, of ChB] have p: "0 \<le> g0" "0 \<le> b0"
      by (simp_all add: v ChR)
    from c' p have "g0 + b0 \<noteq> 0" unfolding v ChR by (cases c') simp_all
    with p show ?thesis unfolding v ChR by (intro sum_R)
  next
    case ChG
    from nn [rule_format, of ChR] nn [rule_format, of ChB] have p: "0 \<le> r0" "0 \<le> b0"
      by (simp_all add: v ChG)
    from c' p have "r0 + b0 \<noteq> 0" unfolding v ChG by (cases c') simp_all
    with p show ?thesis unfolding v ChG by (intro sum_G)
  next
    case ChB
    from nn [rule_format, of ChR] nn [rule_format, of ChG] have p: "0 \<le> r0" "0 \<le> g0"
      by (simp_all add: v ChB)
    from c' p have "r0 + g0 \<noteq> 0" unfolding v ChB by (cases c') simp_all
    with p show ?thesis unfolding v ChB by (intro sum_B)
  qed
qed

text \<open>
  C1. The sum is lost when the two other fields are both zero. From the start of a
  session, typing 100 into R publishes \<open>(100, 0, 0)\<close>; typing 50 into R then publishes
  \<open>(50, 0, 0)\<close>: \<^verbatim>\<open>rem\<close> is 0, the factor \<open>0.5\<close> and the factor \<^verbatim>\<open>100/tot\<close> both
  multiply zeros, and the sum stays at 50.
\<close>

theorem rebalance_sum_lost:
  "on_input init_state ChR 100 = Some (setPerc 100 0 0) \<and>
   on_input (setPerc 100 0 0) ChR 50 = Some (setPerc 50 0 0) \<and>
   rebalance_values (50, 0, 0) ChR 50 = (Fin 50, Fin 0, Fin 0) \<and>
   getRGB (setPerc 50 0 0) = (1 / 2, 0, 0) \<and>
   \<not> \<bar>50 + 0 + 0 - 100\<bar> \<le> (1 / 1000 :: real)"
  by (simp add: on_input_def type_in_def init_state_def rebalance_def setPerc_def getRGB_def
      toFixed2_simps rebalance_values_R scale_to_100_def clamp01p_def)

text \<open>
  C3, as the code has it. From the fields \<open>R = 0, G = 0, B = 100\<close> the edit of R to 50
  publishes \<open>R = 50, G = 0, B = 50\<close>: \<^verbatim>\<open>rem\<close> is \<open>G + B = 100\<close>, not zero, so G and B
  are scaled by \<open>k = (100 - 50) / 100\<close>.
\<close>

theorem rebalance_scenario:
  "rebalance_values (0, 0, 100) ChR 50 = (Fin 50, Fin 0, Fin 50) \<and>
   on_input (setPerc 0 0 100) ChR 50 = Some (setPerc 50 0 50) \<and>
   getRGB (setPerc 50 0 50) = (1 / 2, 0, 1 / 2)"
  by (simp add: on_input_def type_in_def rebalance_def setPerc_def getRGB_def
      toFixed2_simps rebalance_values_R clamp01p_def)

text \<open>The values \<open>R = 50, G = 25, B = 25\<close> of the claim C3 are not what is published.\<close>

theorem rebalance_scenario_counterexample:
  "rebalance_values (0, 0, 100) ChR 50 \<noteq> (Fin 50, Fin 25, Fin 25) \<and>
   on_input (setPerc 0 0 100) ChR 50 \<noteq> Some (setPerc 50 25 25)"
  by (simp add: on_input_def type_in_def rebalance_def setPerc_def
      toFixed2_simps rebalance_values_R clamp01p_def)

subsection \<open>The snapshot \<^verbatim>\<open>getRGB\<close>\<close>

text \<open>
  C5, as the code has it. \<^verbatim>\<open>getRGB\<close> returns the array \<^verbatim>\<open>rgb\<close>, which holds the
  values last handed to \<^verbatim>\<open>setPerc\<close> divided by 100: fractions of 1, not percentages.
  At the start of a session they are \<open>0.333333\<close> each. When the percentages are not
  negative and sum to 100 within \<open>1e-3\<close>, the snapshot is not negative and sums to 1
  within \<open>1e-5\<close>.
\<close>

theorem getRGB_fractions:
  "getRGB (setPerc r g b) = (r / 100, g / 100, b / 100) \<and>
   getRGB init_state = (333333 / 1000000, 333333 / 1000000, 333333 / 1000000) \<and>
   (0 \<le> r \<and> 0 \<le> g \<and> 0 \<le> b \<and> \<bar>r + g + b - 100\<bar> \<le> 1 / 1000 \<longrightarrow>
      (case getRGB (setPerc r g b) of (x, y, z) \<Rightarrow>
         0 \<le> x \<and> 0 \<le> y \<and> 0 \<le> z \<and> \<bar>x + y + z - 1\<bar> \<le> 1 / 100000))"
proof -
  have "\<bar>r / 100 + g / 100 + b / 100 - 1\<bar> \<le> 1 / 100000" if "\<bar>r + g + b - 100\<bar> \<le> 1 / 1000"
    using that by arith
  then show ?thesis by (simp add: getRGB_def setPerc_def init_state_def)
qed

theorem getRGB_fractions_witness:
  "\<bar>20 + 20 + 60 - 100\<bar> \<le> (1 / 1000 :: real) \<and>
   getRGB (setPerc 20 20 60) = (1 / 5, 1 / 5, 3 / 5) \<and>
   \<bar>1 / 5 + 1 / 5 + 3 / 5 - 1\<bar> \<le> (1 / 100000 :: real)"
  using getRGB_fractions [of 20 20 60] by simp

text \<open>
  The claim C5 as it is written fails at the start of a session: the three values sum
  to \<open>0.999999\<close>, not to 100.
\<close>

theorem getRGB_sum_counterexample:
  "getRGB init_state = (333333 / 1000000, 333333 / 1000000, 333333 / 1000000) \<and>
   \<not> \<bar>fst (getRGB init_state) + fst (snd (getRGB init_state)) + snd (snd (getRGB init_state)) - 100\<bar>
       \<le> 1 / 1000"
  by (simp add: getRGB_def setPerc_def init_state_def)

end
